theory Spec2Isabelle
  imports Main "HOL-Library.AList"
begin

section \<open>Configuration documents\<close>

text \<open>
  A workflow configuration is a JSON document. Only the keys that the workflow engine
  reads are kept: \<^verbatim>\<open>_TYPE\<close>, \<^verbatim>\<open>members\<close>, \<^verbatim>\<open>inputs\<close>, \<^verbatim>\<open>info.name\<close> and, under
  \<^verbatim>\<open>config\<close>, \<^verbatim>\<open>autorun\<close> and \<^verbatim>\<open>filter_role\<close>. A key that may be absent is an option
  (\<open>None\<close> is "key not present", so that \<^verbatim>\<open>dict.get(key, default)\<close> is a case
  distinction). Identifiers are strings (the source applies \<^verbatim>\<open>str\<close> to every id).
\<close>

record input_info =
  inp_member_id :: string
  inp_input_member_id :: string
  inp_looper :: bool

datatype config =
  Config (c_TYPE: "string option") (c_members: "member_dict list option")
    (c_inputs: "input_info list option") (c_autorun: "bool option")
    (c_filter_role: "string option") (c_info_name: "string option")
and member_dict =
  MemberDict (md_id: string) (md_agent_id: "string option") (md_loc_x: int) (md_loc_y: int)
    (md_config: config)

text \<open>\<^verbatim>\<open>config.get('_TYPE', 'agent')\<close>\<close>

definition config_type :: "config \<Rightarrow> string" where
  "config_type c = (case c_TYPE c of None \<Rightarrow> ''agent'' | Some t \<Rightarrow> t)"

text \<open>Exceptions of the Python run time and of the source that the models return.\<close>

datatype py_error =
  AttributeError | KeyError | RecursionError | StopIteration | NotImplementedError string

section \<open>Members and workflows\<close>

text \<open>
  Modelled from the spec: the \<^verbatim>\<open>Member\<close> base class (\<^verbatim>\<open>src/members/base.py\<close>) is not
  part of the sources. A participant carries its id, its configuration, its position, the
  ids it depends on, and the two output slots \<^verbatim>\<open>last_output\<close> and \<^verbatim>\<open>turn_output\<close>,
  which are \<^verbatim>\<open>None\<close> until a value is produced.
\<close>

record member =
  member_id :: string
  config :: config
  loc_x :: int
  loc_y :: int
  inputs :: "string list"
  last_output :: "string option"
  turn_output :: "string option"

text \<open>
  A stored message, as \<^verbatim>\<open>save_message\<close> hands it to the message history.
\<close>

record message =
  msg_role :: string
  msg_content :: string
  msg_member_id :: string

text \<open>
  The fields of \<^verbatim>\<open>Workflow\<close> that the engine reads and writes. \<^verbatim>\<open>self.members\<close> is a
  Python dict, which keeps insertion order: an association list with distinct keys.
  A box (\<^verbatim>\<open>set\<close> of member ids) is a duplicate-free list. The parity flag
  \<^verbatim>\<open>alt_turn_state\<close> and the stored messages belong to the message history of the root
  workflow. The chat name is either a participant's name or the text "n members".
\<close>

datatype chat_name = NameOf string | CountOf nat

record workflow =
  wconfig :: config
  has_parent :: bool
  members :: "(string \<times> member) list"
  boxes :: "string list list"
  autorun :: bool
  chat_name :: chat_name
  gen_members :: "string list"
  responding :: bool
  alt_turn_state :: int
  history :: "message list"

subsection \<open>Member queries\<close>

text \<open>
  \<^verbatim>\<open>get_members(incl_types='all', excl_types=None)\<close>: \<open>None\<close> for \<open>incl_types\<close> is the
  default \<^verbatim>\<open>'all'\<close>. The kind \<^verbatim>\<open>'node'\<close> is always appended to the excluded kinds.
\<close>

definition get_members :: "workflow \<Rightarrow> string list option \<Rightarrow> string list option \<Rightarrow> member list" where
  "get_members w incl_types excl_types =
     (let incl = (case incl_types of
                    None \<Rightarrow> [''agent'', ''workflow'', ''user'', ''tool'', ''block'', ''node'']
                  | Some ts \<Rightarrow> ts);
          excl = (case excl_types of None \<Rightarrow> [] | Some es \<Rightarrow> es) @ [''node''];
          incl' = filter (\<lambda>t. t \<notin> set excl) incl
      in filter (\<lambda>m. config_type (config m) \<in> set incl') (map snd (members w)))"

text \<open>\<^verbatim>\<open>next((member for member in self.get_members() if member.turn_output is None), None)\<close>\<close>

definition next_expected_member :: "workflow \<Rightarrow> member option" where
  "next_expected_member w = List.find (\<lambda>m. turn_output m = None) (get_members w None None)"

definition next_expected_is_last_member :: "workflow \<Rightarrow> bool" where
  "next_expected_is_last_member w =
     (length (filter (\<lambda>m. turn_output m = None) (get_members w None None)) = 1)"

section \<open>Wrapping a single participant into a workflow document\<close>

text \<open>
  \<^verbatim>\<open>merge_config_into_workflow_config(config, entity_id=None)\<close> of
  \<^verbatim>\<open>src/utils/helpers.py\<close>. A workflow document is returned as it is; an agent document is
  given a user in front of it; a document of any other kind is wrapped alone.
\<close>

definition merge_config_into_workflow_config :: "config \<Rightarrow> string option \<Rightarrow> config" where
  "merge_config_into_workflow_config c entity_id =
     (let member_type = config_type c in
      if member_type = ''workflow'' then c
      else
        let ms =
          (if member_type = ''agent'' then
             [MemberDict ''1'' None 20 64 (Config (Some ''user'') None None None None None),
              MemberDict ''2'' entity_id 100 80 c]
           else [MemberDict ''1'' None 100 80 c])
        in Config (Some ''workflow'') (Some ms) (Some []) None None None)"

text \<open>
  The head of \<^verbatim>\<open>load_members\<close>: the member list and the input list that the rest of the
  function works on. \<^verbatim>\<open>self.config['members']\<close> raises when the key is absent; the inputs
  are read from the document itself, also when it is wrapped.
\<close>

definition config_members :: "config \<Rightarrow> py_error + member_dict list" where
  "config_members c =
     (if config_type c = ''workflow'' then
        (case c_members c of None \<Rightarrow> Inl KeyError | Some ms \<Rightarrow> Inr ms)
      else
        (case c_members (merge_config_into_workflow_config c None) of
           None \<Rightarrow> Inr [] | Some ms \<Rightarrow> Inr ms))"

definition config_inputs :: "config \<Rightarrow> input_info list" where
  "config_inputs c = (case c_inputs c of None \<Rightarrow> [] | Some is \<Rightarrow> is)"

section \<open>Appending to the message history\<close>

text \<open>
  \<^verbatim>\<open>str.strip()\<close> removes leading and trailing white space; for the characters below 256
  these are the code points 9 to 13, 28 to 32, 133 and 160.
\<close>

definition py_isspace :: "char \<Rightarrow> bool" where
  "py_isspace c = (of_char c \<in> {9, 10, 11, 12, 13, 28, 29, 30, 31, 32, 133, 160 :: nat})"

definition py_strip :: "string \<Rightarrow> string" where
  "py_strip s = rev (dropWhile py_isspace (rev (dropWhile py_isspace s)))"

text \<open>
  Modelled from the spec: \<^verbatim>\<open>MessageHistory.add\<close> (\<^verbatim>\<open>src/utils/messages.py\<close>) is not part of
  the sources. It appends the message to the history; the message handed to it stands for
  the message id that it returns.
\<close>

definition history_add :: "workflow \<Rightarrow> string \<Rightarrow> string \<Rightarrow> string \<Rightarrow> workflow \<times> message option" where
  "history_add w role content mid =
     (let msg = \<lparr>msg_role = role, msg_content = content, msg_member_id = mid\<rparr>
      in (w\<lparr>history := history w @ [msg]\<rparr>, Some msg))"

text \<open>
  \<^verbatim>\<open>save_message(role, content, member_id, log_obj)\<close>. The content of an \<^verbatim>\<open>output\<close>
  message is replaced when it is blank; an empty content returns \<^verbatim>\<open>None\<close> before anything
  is touched; \<^verbatim>\<open>new_run\<close> is
  \<^verbatim>\<open>None not in [member.turn_output for member in self.get_members()]\<close>.
\<close>

definition stored_content :: "string \<Rightarrow> string \<Rightarrow> string" where
  "stored_content role content =
     (if role = ''output''
      then (if py_strip content = [] then ''The code executed without any output'' else content)
      else content)"

definition save_message :: "workflow \<Rightarrow> string \<Rightarrow> string \<Rightarrow> string \<Rightarrow> workflow \<times> message option" where
  "save_message w role content mid =
     (let content' = stored_content role content in
      if content' = [] then (w, None)
      else
        let new_run = (None \<notin> set (map turn_output (get_members w None None)));
            w' = (if new_run then w\<lparr>alt_turn_state := 1 - alt_turn_state w\<rparr> else w)
        in history_add w' role content' mid)"

section \<open>The workflow editor: dependency edges\<close>

text \<open>
  \<^verbatim>\<open>WorkflowSettings.lines\<close> is a dict from the pair (member id, input member id) to the
  connection line; the line's configuration carries the \<^verbatim>\<open>looper\<close> flag. The pair
  \<open>(t, s)\<close> is the edge by which \<open>t\<close> depends on \<open>s\<close>.
\<close>

record line =
  line_looper :: bool
  line_input_type :: string

type_synonym lines = "((string \<times> string) \<times> line) list"

text \<open>
  The list comprehension at the head of \<^verbatim>\<open>check_for_circular_references\<close>: the sources
  of the non-loop lines whose target is one of \<open>input_member_ids\<close>.
\<close>

definition connected_input_members :: "lines \<Rightarrow> string list \<Rightarrow> string list" where
  "connected_input_members ls input_member_ids =
     map (\<lambda>(line_key, l). snd line_key)
       (filter (\<lambda>(line_key, l). fst line_key \<in> set input_member_ids \<and> line_looper l = False) ls)"

text \<open>
  The check recurses on the next frontier and has no other exit than the two tests below,
  so it need not return: \<open>None\<close> is the run that never returns (in Python, the run
  that ends in \<^verbatim>\<open>RecursionError\<close>).
\<close>

partial_function (option) check_for_circular_references ::
  "lines \<Rightarrow> string \<Rightarrow> string list \<Rightarrow> bool option" where
  "check_for_circular_references ls target_id input_member_ids =
     (let connected = connected_input_members ls input_member_ids
      in if target_id \<in> set connected then Some True
         else if length connected = 0 then Some False
         else check_for_circular_references ls target_id connected)"

declare check_for_circular_references.simps [code]

text \<open>The non-loop edges, as the relation "target depends directly on source".\<close>

definition inbound :: "lines \<Rightarrow> (string \<times> string) set" where
  "inbound ls = {(t, s). \<exists>l. ((t, s), l) \<in> set ls \<and> \<not> line_looper l}"

text \<open>
  The line being drawn (\<^verbatim>\<open>self.new_line\<close>): the member it starts from and the
  \<^verbatim>\<open>looper\<close> flag of its configuration.
\<close>

record new_line =
  nl_input_member_id :: string
  nl_looper :: bool

text \<open>
  The part of \<^verbatim>\<open>WorkflowSettings\<close> that \<^verbatim>\<open>add_input\<close> reads and writes. The members in
  view are widgets; \<open>None\<close> as a value stands for Python's \<^verbatim>\<open>None\<close>.
  \<open>config_saves\<close> counts the configurations written to the database.
\<close>

record workflow_settings =
  lines :: lines
  new_line :: "new_line option"
  members_in_view :: "(string \<times> config option) list"
  db_table :: "string option"
  selected_item_id :: "nat option"
  config_saves :: nat

text \<open>
  \<^verbatim>\<open>save_config\<close> returns at once without a table, raises without a selected entity,
  and otherwise writes the configuration.
\<close>

definition save_config :: "workflow_settings \<Rightarrow> py_error + workflow_settings" where
  "save_config st =
     (if db_table st = None \<or> db_table st = Some [] then Inr st
      else if selected_item_id st = None \<or> selected_item_id st = Some 0
        then Inl (NotImplementedError [])
      else Inr (st\<lparr>config_saves := Suc (config_saves st)\<rparr>))"

text \<open>
  \<^verbatim>\<open>add_input\<close> returns nothing; the outcome names the exit that was taken.
\<close>

datatype add_input_outcome =
  SameMember | AlreadyConnected | CircularReference | NoInputMember | Added | Raised py_error

definition add_input :: "workflow_settings \<Rightarrow> string \<Rightarrow> add_input_outcome \<times> workflow_settings" where
  "add_input st target_id =
     (case new_line st of
        None \<Rightarrow> (Raised AttributeError, st)
      | Some nl \<Rightarrow>
          let input_member_id = nl_input_member_id nl in
          if target_id = input_member_id then (SameMember, st)
          else if (target_id, input_member_id) \<in> set (map fst (lines st)) then (AlreadyConnected, st)
          else
            (case check_for_circular_references (lines st) target_id [input_member_id] of
               None \<Rightarrow> (Raised RecursionError, st)
             | Some cr_check \<Rightarrow>
                 let is_looper = nl_looper nl in
                 if cr_check \<and> \<not> is_looper then (CircularReference, st)
                 else
                   (case map_of (members_in_view st) input_member_id of
                      None \<Rightarrow> (Raised KeyError, st)
                    | Some input_member \<Rightarrow>
                        (case map_of (members_in_view st) target_id of
                           None \<Rightarrow> (Raised KeyError, st)
                         | Some member \<Rightarrow>
                             if input_member = None then (NoInputMember, st)
                             else
                               let st' = st\<lparr>lines := lines st @
                                   [((target_id, input_member_id),
                                     \<lparr>line_looper = is_looper, line_input_type = ''Message''\<rparr>)],
                                   new_line := None\<rparr>
                               in (case save_config st' of
                                     Inl e \<Rightarrow> (Raised e, st')
                                   | Inr st'' \<Rightarrow> (Added, st''))))))"

section \<open>Building the members of a workflow\<close>

subsection \<open>Constructors\<close>

text \<open>
  The classes \<^verbatim>\<open>Agent\<close>, \<^verbatim>\<open>User\<close>, \<^verbatim>\<open>TextBlock\<close>, \<^verbatim>\<open>Node\<close> and the plugin lookup
  \<^verbatim>\<open>get_plugin_class\<close> are not part of the sources, and the constructor of a nested
  \<^verbatim>\<open>Workflow\<close> runs the base class constructor and the whole of \<^verbatim>\<open>load\<close> on the nested
  document. What a constructor call followed by \<^verbatim>\<open>member.load()\<close> does is a parameter of
  the model: it returns, it raises, or it never returns.
\<close>

datatype ctor_result = Constructed | CtorRaises py_error | CtorHangs

type_synonym constructor = "member_dict \<Rightarrow> string list \<Rightarrow> ctor_result"

text \<open>
  Modelled from the spec: the object that a constructor returns keeps the keyword arguments
  it was given (\<^verbatim>\<open>member_id\<close>, \<^verbatim>\<open>config\<close>, \<^verbatim>\<open>loc_x\<close>, \<^verbatim>\<open>loc_y\<close>,
  \<^verbatim>\<open>inputs\<close>), and both of its output slots are unset.
\<close>

definition new_member :: "member_dict \<Rightarrow> string list \<Rightarrow> member" where
  "new_member member_dict member_input_ids =
     \<lparr>member_id = md_id member_dict, config = md_config member_dict,
      loc_x = md_loc_x member_dict, loc_y = md_loc_y member_dict,
      inputs = member_input_ids, last_output = None, turn_output = None\<rparr>"

subsection \<open>The instantiation loop\<close>

text \<open>
  The variables of the \<^verbatim>\<open>while\<close> loop of \<^verbatim>\<open>load_members\<close>: the member dict and the box
  list under construction, the last grouped member and its first ordinate, and the box in
  progress.
\<close>

record load_state =
  ls_members :: "(string \<times> member) list"
  ls_boxes :: "string list list"
  last_member_id :: "string option"
  last_loc_x :: int
  current_box_member_ids :: "string list"

definition init_load_state :: load_state where
  "init_load_state =
     \<lparr>ls_members = [], ls_boxes = [], last_member_id = None, last_loc_x = - 100,
      current_box_member_ids = []\<rparr>"

text \<open>The ids that a member depends on through inputs that are not loop inputs.\<close>

definition member_input_ids :: "input_info list \<Rightarrow> string \<Rightarrow> string list" where
  "member_input_ids inps mid =
     map inp_input_member_id
       (filter (\<lambda>input_info. inp_member_id input_info = mid \<and> \<not> inp_looper input_info) inps)"

text \<open>
  The grouping block, run for a member of kind workflow, agent or block: within ten units
  of the last grouped member both join the box in progress, otherwise the box in progress
  is appended to the boxes and emptied.
\<close>

definition group_member :: "load_state \<Rightarrow> string \<Rightarrow> int \<Rightarrow> load_state" where
  "group_member st mid x =
     (let st1 =
        (if abs (x - last_loc_x st) < 10 then
           st\<lparr>current_box_member_ids :=
                List.insert mid
                  (case last_member_id st of
                     None \<Rightarrow> current_box_member_ids st
                   | Some l \<Rightarrow> List.insert l (current_box_member_ids st))\<rparr>
         else if current_box_member_ids st \<noteq> [] then
           st\<lparr>ls_boxes := ls_boxes st @ [current_box_member_ids st],
              current_box_member_ids := []\<rparr>
         else st)
      in st1\<lparr>last_loc_x := x, last_member_id := Some mid\<rparr>)"

text \<open>
  One member is instantiated: grouped when its kind asks for it, then stored under its id.
  Assigning to a key that the dict has keeps the key's place; a new key goes to the end.
\<close>

definition instantiate_member :: "load_state \<Rightarrow> member_dict \<Rightarrow> string list \<Rightarrow> load_state" where
  "instantiate_member st member_dict ids =
     (let member_type = config_type (md_config member_dict);
          st1 = (if member_type \<in> {''workflow'', ''agent'', ''block''}
                 then group_member st (md_id member_dict) (md_loc_x member_dict) else st)
      in st1\<lparr>ls_members :=
               AList.update (md_id member_dict) (new_member member_dict ids) (ls_members st1)\<rparr>)"

text \<open>
  The loop itself. \<open>it\<close> is the position of the list iterator in \<open>ms\<close>: at the end of the
  list the iterator is renewed; a member whose inputs are not all instantiated is passed
  over; an instantiated member is removed from the list and the iterator is renewed. The
  loop has no exit but the empty list and an exception, so it need not return: \<open>None\<close> is
  the run that never returns.
\<close>

partial_function (option) load_members_loop ::
  "constructor \<Rightarrow> input_info list \<Rightarrow> nat \<Rightarrow> member_dict list \<Rightarrow> load_state
     \<Rightarrow> (py_error + load_state) option" where
  "load_members_loop construct inps it ms st =
     (if length ms > 0 then
        (if it \<ge> length ms then load_members_loop construct inps 0 ms st
         else
           let member_dict = ms ! it;
               ids = member_input_ids inps (md_id member_dict)
           in if length ids > 0 \<and> \<not> (\<forall>inp_id \<in> set ids. inp_id \<in> fst ` set (ls_members st))
              then load_members_loop construct inps (Suc it) ms st
              else
                let member_type = config_type (md_config member_dict) in
                if member_type \<notin> {''agent'', ''workflow'', ''user'', ''block'', ''node''}
                then Some (Inl (NotImplementedError member_type))
                else
                  (case construct member_dict ids of
                     CtorHangs \<Rightarrow> None
                   | CtorRaises e \<Rightarrow> Some (Inl e)
                   | Constructed \<Rightarrow>
                       load_members_loop construct inps 0 (remove1 member_dict ms)
                         (instantiate_member st member_dict ids)))
      else Some (Inr st))"

declare load_members_loop.simps [code]

text \<open>After the loop a box in progress is appended to the boxes.\<close>

definition flush_box :: "load_state \<Rightarrow> load_state" where
  "flush_box st =
     (if current_box_member_ids st \<noteq> []
      then st\<lparr>ls_boxes := ls_boxes st @ [current_box_member_ids st]\<rparr> else st)"

text \<open>
  The first half of \<^verbatim>\<open>load_members\<close>: the members sorted by their first ordinate (the sort
  is stable), instantiated, and grouped.
\<close>

definition instantiate_members :: "constructor \<Rightarrow> config \<Rightarrow> (py_error + load_state) option" where
  "instantiate_members construct c =
     (case config_members c of
        Inl e \<Rightarrow> Some (Inl e)
      | Inr ms \<Rightarrow>
          (case load_members_loop construct (config_inputs c) 0 (sort_key md_loc_x ms)
                  init_load_state of
             None \<Rightarrow> None
           | Some (Inl e) \<Rightarrow> Some (Inl e)
           | Some (Inr st) \<Rightarrow> Some (Inr (flush_box st))))"

subsection \<open>Validation of the boxes\<close>

text \<open>
  \<^verbatim>\<open>walk_inputs_recursive(member_id, search_list)\<close> and its \<^verbatim>\<open>for\<close> loop. The first argument
  is the number of nested calls that the interpreter still allows; at zero the call raises
  \<^verbatim>\<open>RecursionError\<close>. \<^verbatim>\<open>found or self.walk_inputs_recursive(...)\<close> does not make the
  call once \<open>found\<close> is true.
\<close>

fun walk_inputs_recursive ::
    "nat \<Rightarrow> (string \<times> member) list \<Rightarrow> string \<Rightarrow> string list \<Rightarrow> py_error + bool"
  and walk_inputs_loop ::
    "nat \<Rightarrow> (string \<times> member) list \<Rightarrow> string list \<Rightarrow> string list \<Rightarrow> bool \<Rightarrow> py_error + bool"
where
  "walk_inputs_recursive 0 ms mid search_list = Inl RecursionError"
| "walk_inputs_recursive (Suc d) ms mid search_list =
     (case map_of ms mid of
        None \<Rightarrow> Inl KeyError
      | Some m \<Rightarrow> walk_inputs_loop d ms (inputs m) search_list False)"
| "walk_inputs_loop d ms [] search_list found = Inr found"
| "walk_inputs_loop d ms (inp # rest) search_list found =
     (if inp \<in> set search_list then Inr True
      else if found then walk_inputs_loop d ms rest search_list found
      else
        (case walk_inputs_recursive d ms inp search_list of
           Inl e \<Rightarrow> Inl e
         | Inr r \<Rightarrow> walk_inputs_loop d ms rest search_list r))"

text \<open>
  The inner loop of the validation: is there a member of the box, among \<open>mids\<close>, from
  which the walk finds a member of the box?
\<close>

fun box_walk :: "nat \<Rightarrow> (string \<times> member) list \<Rightarrow> string list \<Rightarrow> string list \<Rightarrow> py_error + bool" where
  "box_walk d ms box [] = Inr False"
| "box_walk d ms box (mid # mids) =
     (case walk_inputs_recursive d ms mid box of
        Inl e \<Rightarrow> Inl e
      | Inr fnd \<Rightarrow> if fnd then Inr True else box_walk d ms box mids)"

text \<open>The outer loop: the boxes to delete, in the order of the box list.\<close>

fun del_boxes :: "nat \<Rightarrow> (string \<times> member) list \<Rightarrow> string list list \<Rightarrow> py_error + string list list" where
  "del_boxes d ms [] = Inr []"
| "del_boxes d ms (box # bs) =
     (case box_walk d ms box box of
        Inl e \<Rightarrow> Inl e
      | Inr fnd \<Rightarrow>
          (case del_boxes d ms bs of
             Inl e \<Rightarrow> Inl e
           | Inr dl \<Rightarrow> Inr (if fnd then box # dl else dl)))"

text \<open>
  \<^verbatim>\<open>self.boxes.remove(box)\<close> removes the first box that is equal to \<open>box\<close>; boxes are sets,
  so equal means the same elements. Every box to delete is in the list.
\<close>

fun remove_box :: "string list \<Rightarrow> string list list \<Rightarrow> string list list" where
  "remove_box box [] = []"
| "remove_box box (b # bs) = (if set b = set box then bs else b # remove_box box bs)"

definition validate_boxes ::
  "nat \<Rightarrow> (string \<times> member) list \<Rightarrow> string list list \<Rightarrow> py_error + string list list" where
  "validate_boxes d ms bs =
     (case del_boxes d ms bs of
        Inl e \<Rightarrow> Inl e
      | Inr dl \<Rightarrow> Inr (fold remove_box dl bs))"

subsection \<open>The chat name\<close>

definition count_members :: "workflow \<Rightarrow> string list option \<Rightarrow> bool \<Rightarrow> nat" where
  "count_members w incl_types excl_initial_user =
     (let extra_user_count = length (get_members w (Some [''user'']) None) - 1;
          excl_types = (if excl_initial_user then [''user''] else []);
          matched_members = get_members w incl_types (Some excl_types)
      in length matched_members + (if excl_initial_user then extra_user_count else 0))"

text \<open>
  With a count of one the name of the first member that is not a user is taken;
  \<^verbatim>\<open>next(iter(other_members))\<close> raises when there is none.
\<close>

definition set_chat_name :: "workflow \<Rightarrow> py_error + workflow" where
  "set_chat_name w =
     (let counted_members = count_members w None True in
      if counted_members = 1 then
        (case get_members w None (Some [''user'']) of
           [] \<Rightarrow> Inl StopIteration
         | m # _ \<Rightarrow>
             Inr (w\<lparr>chat_name :=
                     NameOf (case c_info_name (config m) of
                               None \<Rightarrow> ''Assistant'' | Some n \<Rightarrow> n)\<rparr>))
      else Inr (w\<lparr>chat_name := CountOf counted_members\<rparr>))"

subsection \<open>The whole of \<^verbatim>\<open>load_members\<close>\<close>

text \<open>
  The members and boxes of the workflow are replaced by the ones built from its document.
  The last statement of the source, \<^verbatim>\<open>update_behaviour\<close>, chooses the behaviour object
  among the plugins and reads neither the members' outputs nor the boxes; it is left out.
\<close>

definition load_members :: "constructor \<Rightarrow> nat \<Rightarrow> workflow \<Rightarrow> (py_error + workflow) option" where
  "load_members construct depth w =
     (case instantiate_members construct (wconfig w) of
        None \<Rightarrow> None
      | Some (Inl e) \<Rightarrow> Some (Inl e)
      | Some (Inr st) \<Rightarrow>
          (case validate_boxes depth (ls_members st) (ls_boxes st) of
             Inl e \<Rightarrow> Some (Inl e)
           | Inr bs \<Rightarrow>
               (case set_chat_name (w\<lparr>members := ls_members st, boxes := bs\<rparr>) of
                  Inl e \<Rightarrow> Some (Inl e)
                | Inr w' \<Rightarrow> Some (Inr w'))))"

subsection \<open>The dependency relation of a document\<close>

text \<open>
  The inputs that are not flagged as loop inputs, as the relation "the member with the
  first id depends on the member with the second id". This is the relation that
  \<open>member_input_ids\<close> reads off the input list.
\<close>

definition dependencies :: "input_info list \<Rightarrow> (string \<times> string) set" where
  "dependencies inps =
     {(inp_member_id i, inp_input_member_id i) | i. i \<in> set inps \<and> \<not> inp_looper i}"

text \<open>The test of the loop that lets a member be instantiated: all its inputs are keys.\<close>

definition ready :: "input_info list \<Rightarrow> load_state \<Rightarrow> member_dict \<Rightarrow> bool" where
  "ready inps st md =
     (\<forall>s \<in> set (member_input_ids inps (md_id md)). s \<in> fst ` set (ls_members st))"

text \<open>The kinds for which \<^verbatim>\<open>load_members\<close> has a constructor.\<close>

definition known_kind :: "member_dict \<Rightarrow> bool" where
  "known_kind md =
     (config_type (md_config md) \<in> {''agent'', ''workflow'', ''user'', ''block'', ''node''})"

subsection \<open>Grouping: the notions used to state what the boxes hold\<close>

text \<open>The kinds that the grouping block of \<^verbatim>\<open>load_members\<close> is run for.\<close>

definition grouped_kind :: "config \<Rightarrow> bool" where
  "grouped_kind c = (config_type c \<in> {''workflow'', ''agent'', ''block''})"

text \<open>The instantiated members of these kinds, in the order of the member dict.\<close>

definition grouped_members :: "load_state \<Rightarrow> member list" where
  "grouped_members st = filter (\<lambda>m. grouped_kind (config m)) (map snd (ls_members st))"

text \<open>Two members whose first ordinates differ by less than the threshold of ten.\<close>

definition close_by :: "member \<Rightarrow> member \<Rightarrow> bool" where
  "close_by p q = (abs (loc_x q - loc_x p) < 10)"

text \<open>Two members whose ids are in one box of a list of boxes.\<close>

definition same_box :: "string list list \<Rightarrow> member \<Rightarrow> member \<Rightarrow> bool" where
  "same_box bs p q = (\<exists>box \<in> set bs. member_id p \<in> set box \<and> member_id q \<in> set box)"

text \<open>
  What the loop variables \<^verbatim>\<open>last_member_id\<close> and \<^verbatim>\<open>last_loc_x\<close> hold: the last grouped
  member, or the initial values when there is none.
\<close>

definition last_ok :: "load_state \<Rightarrow> bool" where
  "last_ok st =
     (if grouped_members st = [] then last_member_id st = None \<and> last_loc_x st = - 100
      else last_member_id st = Some (member_id (last (grouped_members st))) \<and>
           last_loc_x st = loc_x (last (grouped_members st)))"

section \<open>Driving a turn\<close>

text \<open>
  What can come out of an \<^verbatim>\<open>await\<close> in \<^verbatim>\<open>WorkflowBehaviour.receive\<close>: the cancellation of
  the task (\<^verbatim>\<open>asyncio.CancelledError\<close>) or an exception.
\<close>

datatype raised = CancelledError | Exception py_error

text \<open>
  Modelled from the spec: the producers (\<^verbatim>\<open>run_member\<close> of the member classes) are not
  part of the sources. A producer is an asynchronous generator; what the engine sees of it is
  a finite sequence of steps, each of which hands a \<^verbatim>\<open>(key, chunk)\<close> pair to the engine or
  stores a value in the output slots of a member, and an end: the generator is exhausted, or
  an exception comes out of it.
\<close>

datatype event = Chunk string string | TurnOutput string string

type_synonym producer = "event list \<times> raised option"

definition set_turn_output :: "string \<Rightarrow> string \<Rightarrow> workflow \<Rightarrow> workflow" where
  "set_turn_output mid v w =
     w\<lparr>members := map (\<lambda>(k, m). if k = mid
                                  then (k, m\<lparr>last_output := Some v, turn_output := Some v\<rparr>)
                                  else (k, m)) (members w)\<rparr>"

text \<open>\<^verbatim>\<open>get_member_async_group(member_id)\<close>: the first box that holds the id, or \<^verbatim>\<open>None\<close>.\<close>

definition get_member_async_group :: "workflow \<Rightarrow> string \<Rightarrow> string list option" where
  "get_member_async_group w mid = List.find (\<lambda>box. mid \<in> set box) (boxes w)"

text \<open>
  \<^verbatim>\<open>str.lower()\<close> on the characters below 256: the letters A to Z and the capital letters
  of Latin-1 (192 to 222 without the multiplication sign 215) move up by 32.
\<close>

definition py_lower_char :: "char \<Rightarrow> char" where
  "py_lower_char c =
     (let n = (of_char c :: nat)
      in if (65 \<le> n \<and> n \<le> 90) \<or> (192 \<le> n \<and> n \<le> 222 \<and> n \<noteq> 215) then char_of (n + 32) else c)"

definition py_lower :: "string \<Rightarrow> string" where
  "py_lower s = map py_lower_char s"

text \<open>\<^verbatim>\<open>self.workflow.config.get('config', {}).get('filter_role', 'All').lower()\<close>\<close>

definition filter_role :: "workflow \<Rightarrow> string" where
  "filter_role w = py_lower (case c_filter_role (wconfig w) of None \<Rightarrow> ''All'' | Some r \<Rightarrow> r)"

text \<open>
  A pair that \<^verbatim>\<open>receive\<close> yields to its caller. So that the conditions under which it was
  yielded can be stated, it is recorded together with the member that was being run and the
  workflow as it was at the \<^verbatim>\<open>yield\<close>.
\<close>

record yielded =
  y_key :: string
  y_chunk :: string
  y_member :: member
  y_state :: workflow

text \<open>
  The inner loop \<^verbatim>\<open>async for key, chunk in member.run_member()\<close> over the steps of the
  producer of the member at position \<open>i\<close> of the member dict. The member is an object; its
  value is read from the workflow at each step, and \<^verbatim>\<open>member == nem\<close> compares values (the
  members of a loaded workflow differ in their ids). The result tells whether the loop was
  left by \<^verbatim>\<open>break\<close>, in which case the producer is not advanced any more.
\<close>

fun drive :: "nat \<Rightarrow> string \<Rightarrow> event list \<Rightarrow> workflow \<Rightarrow> yielded list \<times> workflow \<times> bool" where
  "drive i fr [] w = ([], w, False)"
| "drive i fr (TurnOutput mid v # es) w = drive i fr es (set_turn_output mid v w)"
| "drive i fr (Chunk key chunk # es) w =
     (if key = ''SYS'' \<and> chunk = ''SKIP'' then ([], w, True)
      else
        let member = snd (members w ! i);
            nem = next_expected_member w;
            ys = (if next_expected_is_last_member w \<and> Some member = nem
                  then (if key = fr \<or> fr = ''all''
                        then [\<lparr>y_key = key, y_chunk = chunk, y_member = member, y_state = w\<rparr>]
                        else [])
                  else []);
            (ys', w', broke) = drive i fr es w
        in (ys @ ys', w', broke))"

text \<open>
  \<^verbatim>\<open>run_group\<close>, the coroutine that \<^verbatim>\<open>create_async_group_task\<close> returns. A task is made for
  every member of the box that is not processed yet (\<^verbatim>\<open>self.workflow.members[member_id]\<close>
  raises \<^verbatim>\<open>KeyError\<close> on an unknown id); \<^verbatim>\<open>run_member_task\<close> runs a producer to its end and
  drops every pair. \<^verbatim>\<open>asyncio.gather\<close> runs the tasks concurrently; here they run one after
  the other, in the order of the box, up to the first that raises. \<^verbatim>\<open>StopIteration\<close> out of
  \<^verbatim>\<open>gather\<close> is swallowed; the coroutine returns \<^verbatim>\<open>None\<close> in every case.
\<close>

fun group_tasks :: "workflow \<Rightarrow> string list \<Rightarrow> string list \<Rightarrow> py_error + (member list \<times> string list)" where
  "group_tasks w [] processed = Inr ([], processed)"
| "group_tasks w (mid # mids) processed =
     (if mid \<in> set processed then group_tasks w mids processed
      else
        (case map_of (members w) mid of
           None \<Rightarrow> Inl KeyError
         | Some m \<Rightarrow>
             (case group_tasks w mids (processed @ [mid]) of
                Inl e \<Rightarrow> Inl e
              | Inr (tasks, processed') \<Rightarrow> Inr (m # tasks, processed'))))"

fun run_member_task :: "event list \<Rightarrow> workflow \<Rightarrow> workflow" where
  "run_member_task [] w = w"
| "run_member_task (TurnOutput mid v # es) w = run_member_task es (set_turn_output mid v w)"
| "run_member_task (Chunk key chunk # es) w = run_member_task es w"

fun gather :: "(workflow \<Rightarrow> member \<Rightarrow> producer) \<Rightarrow> member list \<Rightarrow> workflow \<Rightarrow> workflow \<times> raised option" where
  "gather run [] w = (w, None)"
| "gather run (m # tasks) w =
     (case run w m of
        (es, None) \<Rightarrow> gather run tasks (run_member_task es w)
      | (es, Some e) \<Rightarrow> (run_member_task es w, Some e))"

definition run_group ::
  "(workflow \<Rightarrow> member \<Rightarrow> producer) \<Rightarrow> string list \<Rightarrow> string list \<Rightarrow> workflow \<Rightarrow>
     workflow \<times> string list \<times> raised option" where
  "run_group run member_ids processed w =
     (case group_tasks w member_ids processed of
        Inl e \<Rightarrow> (w, processed, Some (Exception e))
      | Inr (tasks, processed') \<Rightarrow>
          (case gather run tasks w of
             (w', Some (Exception StopIteration)) \<Rightarrow> (w', processed', None)
           | (w', r) \<Rightarrow> (w', processed', r)))"

text \<open>
  The \<^verbatim>\<open>for\<close> loop of \<^verbatim>\<open>receive\<close> over \<^verbatim>\<open>self.workflow.members.values()\<close>, by position.
  It is left by running to its end, by a \<^verbatim>\<open>return\<close>, or by an exception.
\<close>

datatype loop_exit = Exhausted | Return | Raise raised

text \<open>
  The part of the loop body that runs the member at position \<open>i\<close>, alone or with its box,
  and tells how the loop is left there, if it is. \<^verbatim>\<open>result is True\<close> never holds, as
  \<^verbatim>\<open>run_group\<close> returns \<^verbatim>\<open>None\<close>. \<^verbatim>\<open>StopIteration\<close> out of the producer is a \<^verbatim>\<open>return\<close>.
\<close>

definition run_step ::
  "(workflow \<Rightarrow> member \<Rightarrow> producer) \<Rightarrow> nat \<Rightarrow> string list \<Rightarrow> workflow \<Rightarrow>
     yielded list \<times> workflow \<times> string list \<times> loop_exit option" where
  "run_step run i processed w =
     (let member = snd (members w ! i);
          fr = filter_role w;
          async_group_member_ids = get_member_async_group w (member_id member)
      in
      if async_group_member_ids \<noteq> None \<and> async_group_member_ids \<noteq> Some []
      then
        (case run_group run (the async_group_member_ids) processed
                (w\<lparr>gen_members := the async_group_member_ids\<rparr>) of
           (w', processed', None) \<Rightarrow> ([], w', processed', None)
         | (w', processed', Some e) \<Rightarrow> ([], w', processed', Some (Raise e)))
      else
        let w1 = w\<lparr>gen_members := [member_id member]\<rparr>;
            (es, ending) = run w1 member;
            (ys, w2, broke) = drive i fr es w1
        in (ys, w2, processed,
            if broke then None
            else (case ending of
                    None \<Rightarrow> None
                  | Some (Exception StopIteration) \<Rightarrow> Some Return
                  | Some e \<Rightarrow> Some (Raise e))))"

fun receive_loop ::
  "(workflow \<Rightarrow> member \<Rightarrow> producer) \<Rightarrow> string option \<Rightarrow> nat list \<Rightarrow> bool \<Rightarrow> string list \<Rightarrow>
     workflow \<Rightarrow> yielded list \<times> workflow \<times> loop_exit" where
  "receive_loop run from_member_id [] found_source processed w = ([], w, Exhausted)"
| "receive_loop run from_member_id (i # is) found_source processed w =
     (let member = snd (members w ! i);
          found_source' = (found_source \<or> Some (member_id member) = from_member_id \<or>
                           from_member_id = None)
      in
      if \<not> found_source' then receive_loop run from_member_id is found_source' processed w
      else if member_id member \<in> set processed
      then receive_loop run from_member_id is found_source' processed w
      else
        (case run_step run i processed w of
           (ys, w', processed', Some x) \<Rightarrow> (ys, w', x)
         | (ys, w', processed', None) \<Rightarrow>
             if \<not> autorun w' then (ys, w', Return)
             else if config_type (config member) \<in> {''user'', ''contact''} \<and>
                     Some (member_id member) \<noteq> from_member_id
             then (ys, w', Return)
             else
               (case receive_loop run from_member_id is found_source' processed' w' of
                  (ys', w'', x) \<Rightarrow> (ys @ ys', w'', x))))"

text \<open>
  The end of the \<^verbatim>\<open>try\<close> block: a nested workflow stores its final message under its own
  member path. \<^verbatim>\<open>get_final_message\<close> reads the message history and \<^verbatim>\<open>full_member_id\<close> is a
  method of the \<^verbatim>\<open>Member\<close> base class, neither of which is part of the sources; both are
  parameters.
\<close>

definition propagate_final_message ::
  "(workflow \<Rightarrow> message option) \<Rightarrow> string \<Rightarrow> workflow \<Rightarrow> workflow" where
  "propagate_final_message get_final_message full_member_id w =
     (if has_parent w then
        (case get_final_message w of
           None \<Rightarrow> w
         | Some final_message \<Rightarrow>
             fst (save_message w (msg_role final_message) (msg_content final_message)
                    full_member_id))
      else w)"

text \<open>
  \<^verbatim>\<open>WorkflowBehaviour.receive(from_member_id)\<close>, run by a caller that takes every pair, as
  \<^verbatim>\<open>start\<close> does. The result is the pairs yielded, the workflow that is left, and the
  exception that comes out of the generator, if any. A workflow without members returns
  before \<^verbatim>\<open>responding\<close> is set. \<^verbatim>\<open>CancelledError\<close> is swallowed, any other exception is raised
  again, and the \<^verbatim>\<open>finally\<close> block runs behind each of them.
\<close>

record turn =
  t_yielded :: "yielded list"
  t_workflow :: workflow
  t_raised :: "py_error option"

definition receive ::
  "(workflow \<Rightarrow> member \<Rightarrow> producer) \<Rightarrow> (workflow \<Rightarrow> message option) \<Rightarrow> string \<Rightarrow> workflow \<Rightarrow>
     string option \<Rightarrow> turn" where
  "receive run get_final_message full_member_id w from_member_id =
     (let w0 = w\<lparr>gen_members := []\<rparr> in
      if length (members w0) = 0 then \<lparr>t_yielded = [], t_workflow = w0, t_raised = None\<rparr>
      else
        let w1 = w0\<lparr>responding := True\<rparr>;
            (ys, w2, exit) =
              receive_loop run from_member_id [0..<length (members w1)] False [] w1;
            (w3, r) =
              (case exit of
                 Exhausted \<Rightarrow> (propagate_final_message get_final_message full_member_id w2, None)
               | Return \<Rightarrow> (w2, None)
               | Raise CancelledError \<Rightarrow> (w2, None)
               | Raise (Exception e) \<Rightarrow> (w2, Some e))
        in \<lparr>t_yielded = ys, t_workflow = w3\<lparr>gen_members := [], responding := False\<rparr>,
            t_raised = r\<rparr>)"

text \<open>
  What the steps of a producer leave alone: the configuration, the boxes, and the id and the
  configuration of the member at each position of the member dict.
\<close>

definition frame :: "workflow \<Rightarrow> config \<times> string list list \<times> (string \<times> config) list" where
  "frame w = (wconfig w, boxes w, map (\<lambda>p. (member_id (snd p), config (snd p))) (members w))"

section \<open>Concrete inputs\<close>

subsection \<open>Workflows\<close>

definition agent_cfg :: config where
  "agent_cfg = Config (Some ''agent'') None None None None None"

definition node_cfg :: config where
  "node_cfg = Config (Some ''node'') None None None None None"

definition user_cfg :: config where
  "user_cfg = Config (Some ''user'') None None None None None"

definition mk_member :: "string \<Rightarrow> config \<Rightarrow> string option \<Rightarrow> member" where
  "mk_member i c out =
     \<lparr>member_id = i, config = c, loc_x = 0, loc_y = 0, inputs = [], last_output = None,
      turn_output = out\<rparr>"

definition mk_workflow :: "member list \<Rightarrow> workflow" where
  "mk_workflow ms =
     \<lparr>wconfig = Config (Some ''workflow'') (Some []) (Some []) None None None, has_parent = False,
      members = map (\<lambda>m. (member_id m, m)) ms, boxes = [], autorun = True, chat_name = CountOf 0,
      gen_members = [],
      responding = False, alt_turn_state = 0, history = []\<rparr>"

text \<open>A workflow whose only participant is a structural node that has produced nothing.\<close>

definition wf_node_only :: workflow where
  "wf_node_only = mk_workflow [mk_member ''1'' node_cfg None]"

text \<open>A node (unset), an agent that has answered, and two agents that have not.\<close>

definition wf_mixed :: workflow where
  "wf_mixed = mk_workflow
     [mk_member ''1'' node_cfg None, mk_member ''2'' agent_cfg (Some ''hello''),
      mk_member ''3'' agent_cfg None, mk_member ''4'' agent_cfg None]"

text \<open>A single agent that has not answered yet: the first message of a fresh turn.\<close>

definition wf_fresh :: workflow where
  "wf_fresh = mk_workflow [mk_member ''1'' agent_cfg None]"

text \<open>A single agent whose answer of the turn is stored.\<close>

definition wf_done :: workflow where
  "wf_done = mk_workflow [mk_member ''1'' agent_cfg (Some ''hello'')]"

definition block_cfg :: config where
  "block_cfg = Config (Some ''block'') None None None None None"

subsection \<open>An editor with one edge: member 2 depends on member 1\<close>

definition ex_lines :: lines where
  "ex_lines = [((''2'', ''1''), \<lparr>line_looper = False, line_input_type = ''Message''\<rparr>)]"

definition ex_settings :: "string \<Rightarrow> bool \<Rightarrow> workflow_settings" where
  "ex_settings src lp =
     \<lparr>lines = ex_lines, new_line = Some \<lparr>nl_input_member_id = src, nl_looper = lp\<rparr>,
      members_in_view = [(''1'', Some agent_cfg), (''2'', Some agent_cfg)],
      db_table = Some ''entities'', selected_item_id = Some 7, config_saves = 0\<rparr>"

subsection \<open>Documents\<close>

text \<open>A constructor that always returns.\<close>

definition always :: constructor where
  "always md ids = Constructed"

definition inp :: "string \<Rightarrow> string \<Rightarrow> bool \<Rightarrow> input_info" where
  "inp t s l = \<lparr>inp_member_id = t, inp_input_member_id = s, inp_looper = l\<rparr>"

text \<open>
  A user U at 0, agents A and B at 100 that depend on U, and an agent C at 200 that depends
  on A and on B; the members are listed out of order.
\<close>

definition diamond_doc :: config where
  "diamond_doc = Config (Some ''workflow'')
     (Some [MemberDict ''C'' None 200 0 agent_cfg, MemberDict ''A'' None 100 0 agent_cfg,
            MemberDict ''U'' None 0 0 user_cfg, MemberDict ''B'' None 100 0 agent_cfg])
     (Some [inp ''A'' ''U'' False, inp ''B'' ''U'' False, inp ''C'' ''A'' False,
            inp ''C'' ''B'' False])
     None None None"

text \<open>A workflow with one member whose kind is \<^verbatim>\<open>tool\<close>, and no inputs.\<close>

definition tool_cfg :: config where
  "tool_cfg = Config (Some ''tool'') None None None None None"

definition tool_doc :: config where
  "tool_doc = Config (Some ''workflow'') (Some [MemberDict ''1'' None 0 0 tool_cfg]) (Some [])
     None None None"

text \<open>The workflow objects that are loaded from these documents.\<close>

definition workflow_of :: "config \<Rightarrow> workflow" where
  "workflow_of c = (mk_workflow [])\<lparr>wconfig := c\<rparr>"

text \<open>Two agents five units apart, the second depending on the first.\<close>

definition chain_doc :: config where
  "chain_doc = Config (Some ''workflow'')
     (Some [MemberDict ''A'' None 100 0 agent_cfg, MemberDict ''B'' None 105 0 agent_cfg])
     (Some [inp ''B'' ''A'' False])
     None None None"

text \<open>A user at 100 and an agent at 105, with no inputs.\<close>

definition near_user_doc :: config where
  "near_user_doc = Config (Some ''workflow'')
     (Some [MemberDict ''U'' None 100 0 user_cfg, MemberDict ''A'' None 105 0 agent_cfg])
     (Some []) None None None"

text \<open>
  Agents A at 100 and B at 105, and an agent C at 300 that A depends on: A is instantiated
  last, after C.
\<close>

definition deferred_doc :: config where
  "deferred_doc = Config (Some ''workflow'')
     (Some [MemberDict ''A'' None 100 0 agent_cfg, MemberDict ''B'' None 105 0 agent_cfg,
            MemberDict ''C'' None 300 0 agent_cfg])
     (Some [inp ''A'' ''C'' False]) None None None"



subsection \<open>Turns\<close>

text \<open>Producers: every agent hands on the one pair \<^verbatim>\<open>('assistant', 'hi')\<close>, nobody else
  produces anything, and nothing is stored.\<close>

definition hi_run :: "workflow \<Rightarrow> member \<Rightarrow> producer" where
  "hi_run w m =
     (if config_type (config m) = ''agent'' then ([Chunk ''assistant'' ''hi''], None)
      else ([], None))"



definition no_final_message :: "workflow \<Rightarrow> message option" where
  "no_final_message w = None"

text \<open>An agent followed by a structural node, neither of which has produced anything.\<close>

definition wf_agent_node :: workflow where
  "wf_agent_node = mk_workflow [mk_member ''1'' agent_cfg None, mk_member ''2'' node_cfg None]"

text \<open>A single agent without an output, in a workflow whose role filter is \<^verbatim>\<open>Assistant\<close>.\<close>

definition wf_filter_assistant :: workflow where
  "wf_filter_assistant =
     wf_fresh\<lparr>wconfig := Config (Some ''workflow'') (Some []) (Some []) None (Some ''Assistant'') None\<rparr>"


section \<open>The next expected member\<close>

lemma get_members_all:
  "get_members w None None =
     filter (\<lambda>m. config_type (config m) \<in> {''agent'', ''workflow'', ''user'', ''tool'', ''block''})
       (map snd (members w))"
  by (auto simp: get_members_def intro!: filter_cong)

text \<open>
  Claim C6, as the code has it. \<^verbatim>\<open>next_expected_member\<close> looks only at the members that
  \<^verbatim>\<open>get_members()\<close> returns, that is, at the participants of kind agent, workflow, user,
  tool or block, in the order of the member dict; structural nodes are left out. It returns
  none iff each of these has its \<^verbatim>\<open>turn_output\<close> set, and otherwise the first of them, in
  dict order, whose \<^verbatim>\<open>turn_output\<close> is unset.
\<close>

theorem next_expected_member_first_unset:
  fixes w :: workflow
  defines "ps \<equiv> filter (\<lambda>m. config_type (config m) \<in> {''agent'', ''workflow'', ''user'', ''tool'', ''block''})
                   (map snd (members w))"
  shows "(next_expected_member w = None \<longleftrightarrow> (\<forall>m \<in> set ps. turn_output m \<noteq> None)) \<and>
         (\<forall>m. next_expected_member w = Some m \<longleftrightarrow>
              (\<exists>i < length ps. ps ! i = m \<and> turn_output m = None \<and>
                 (\<forall>j < i. turn_output (ps ! j) \<noteq> None)))"
proof -
  have g: "get_members w None None = ps"
    unfolding ps_def by (rule get_members_all)
  have none: "next_expected_member w = None \<longleftrightarrow> (\<forall>m \<in> set ps. turn_output m \<noteq> None)"
    by (auto simp: next_expected_member_def g find_None_iff)
  have some: "next_expected_member w = Some m \<longleftrightarrow>
              (\<exists>i < length ps. ps ! i = m \<and> turn_output m = None \<and>
                 (\<forall>j < i. turn_output (ps ! j) \<noteq> None))" for m
    unfolding next_expected_member_def g find_Some_iff by auto
  from none some show ?thesis by blast
qed

theorem next_expected_member_first_unset_witness:
  "next_expected_member wf_mixed = Some (mk_member ''3'' agent_cfg None) \<and>
   next_expected_member wf_node_only = None"
proof -
  have a: "next_expected_member wf_mixed = Some (mk_member ''3'' agent_cfg None)"
    using next_expected_member_first_unset [of wf_mixed]
    by (simp add: wf_mixed_def mk_workflow_def mk_member_def agent_cfg_def node_cfg_def
        config_type_def next_expected_member_def get_members_def)
  have b: "next_expected_member wf_node_only = None"
    using next_expected_member_first_unset [of wf_node_only]
    by (simp add: wf_node_only_def mk_workflow_def mk_member_def node_cfg_def config_type_def)
  from a b show ?thesis by simp
qed

text \<open>
  The claim as worded speaks of every participant. A structural node is a participant, and
  with a node whose \<^verbatim>\<open>turn_output\<close> is unset the function still returns none.
\<close>

theorem next_expected_member_ignores_node:
  "next_expected_member wf_node_only = None \<and>
   members wf_node_only = [(''1'', mk_member ''1'' node_cfg None)] \<and>
   turn_output (mk_member ''1'' node_cfg None) = None"
  by (simp add: wf_node_only_def mk_workflow_def mk_member_def node_cfg_def config_type_def
      next_expected_member_def get_members_def)

section \<open>Circular references and the addition of edges\<close>

lemma set_connected: "set (connected_input_members ls F) = {s. \<exists>t \<in> set F. (t, s) \<in> inbound ls}"
  by (force simp: connected_input_members_def inbound_def image_iff)

lemma check_true_complete:
  assumes "(s, T) \<in> (inbound ls)\<^sup>+"
  shows "s \<in> set F \<Longrightarrow> check_for_circular_references ls T F = Some True"
  using assms
proof (induction arbitrary: F rule: converse_trancl_induct)
  case (base y)
  then have "T \<in> set (connected_input_members ls F)" by (auto simp: set_connected)
  then show ?case by (subst check_for_circular_references.simps) (simp add: Let_def)
next
  case (step y z)
  then have z: "z \<in> set (connected_input_members ls F)" by (auto simp: set_connected)
  then have ne: "connected_input_members ls F \<noteq> []" by auto
  from step.IH [OF z] ne show ?case
    by (subst check_for_circular_references.simps) (simp add: Let_def)
qed

lemma check_sound:
  assumes "check_for_circular_references ls0 T0 F0 = Some b0"
  shows "b0 = (\<exists>s \<in> set F0. (s, T0) \<in> (inbound ls0)\<^sup>+)"
proof (rule check_for_circular_references.raw_induct
    [where P = "\<lambda>ls T F b. b = (\<exists>s \<in> set F. (s, T) \<in> (inbound ls)\<^sup>+)", OF _ assms],
    goal_cases)
  case (1 chk ls T F b)
  let ?C = "connected_input_members ls F"
  show ?case
  proof (cases "T \<in> set ?C")
    case True
    with 1(2) have "b" by (simp add: Let_def)
    moreover from True have "\<exists>s \<in> set F. (s, T) \<in> inbound ls" by (auto simp: set_connected)
    ultimately show ?thesis by blast
  next
    case notin: False
    show ?thesis
    proof (cases "?C = []")
      case True
      with notin 1(2) have "\<not> b" by (simp add: Let_def)
      moreover have "\<not> (\<exists>s \<in> set F. (s, T) \<in> (inbound ls)\<^sup>+)"
      proof
        assume "\<exists>s \<in> set F. (s, T) \<in> (inbound ls)\<^sup>+"
        then obtain s where s: "s \<in> set F" "(s, T) \<in> (inbound ls)\<^sup>+" by blast
        then obtain u where "(s, u) \<in> inbound ls" by (meson converse_tranclE)
        with s(1) have "u \<in> set ?C" by (auto simp: set_connected)
        with True show False by simp
      qed
      ultimately show ?thesis by blast
    next
      case False
      with notin 1(2) have "chk ls T ?C = Some b" by (simp add: Let_def)
      from 1(1) [OF this] have ih: "b = (\<exists>s \<in> set ?C. (s, T) \<in> (inbound ls)\<^sup>+)" .
      have "(\<exists>s \<in> set F. (s, T) \<in> (inbound ls)\<^sup>+) = (\<exists>s \<in> set ?C. (s, T) \<in> (inbound ls)\<^sup>+)"
      proof
        assume "\<exists>s \<in> set F. (s, T) \<in> (inbound ls)\<^sup>+"
        then obtain s where s: "s \<in> set F" "(s, T) \<in> (inbound ls)\<^sup>+" by blast
        from s(2) consider "(s, T) \<in> inbound ls"
          | u where "(s, u) \<in> inbound ls" "(u, T) \<in> (inbound ls)\<^sup>+"
          by (meson converse_tranclE)
        then show "\<exists>s \<in> set ?C. (s, T) \<in> (inbound ls)\<^sup>+"
        proof cases
          case 1
          with s(1) have "T \<in> set ?C" by (auto simp: set_connected)
          with notin show ?thesis by simp
        next
          case (2 u)
          with s(1) have "u \<in> set ?C" by (auto simp: set_connected)
          with 2(2) show ?thesis by blast
        qed
      next
        assume "\<exists>s \<in> set ?C. (s, T) \<in> (inbound ls)\<^sup>+"
        then obtain u where u: "u \<in> set ?C" "(u, T) \<in> (inbound ls)\<^sup>+" by blast
        from u(1) obtain s where "s \<in> set F" "(s, u) \<in> inbound ls" by (auto simp: set_connected)
        with u(2) show "\<exists>s \<in> set F. (s, T) \<in> (inbound ls)\<^sup>+"
          by (meson trancl_into_trancl2)
      qed
      with ih show ?thesis by simp
    qed
  qed
qed

lemma finite_inbound: "finite (inbound ls)"
proof -
  have "inbound ls \<subseteq> fst ` set ls" by (force simp: inbound_def)
  then show ?thesis by (rule finite_subset) simp
qed

lemma check_terminates:
  assumes ac: "acyclic (inbound ls)"
  shows "\<exists>b. check_for_circular_references ls T F = Some b"
proof -
  have wf: "wf (max_ext ((inbound ls)\<inverse>))"
    by (rule max_ext_wf) (rule finite_acyclic_wf_converse [OF finite_inbound ac])
  have "\<forall>F. set F = X \<longrightarrow> (\<exists>b. check_for_circular_references ls T F = Some b)" for X
  proof (induction X rule: wf_induct_rule [OF wf])
    case (1 X)
    show ?case
    proof (intro allI impI)
      fix F assume F: "set F = X"
      let ?C = "connected_input_members ls F"
      show "\<exists>b. check_for_circular_references ls T F = Some b"
      proof (cases "T \<in> set ?C \<or> ?C = []")
        case True
        then show ?thesis
          by (subst check_for_circular_references.simps) (auto simp: Let_def)
      next
        case False
        then have ne: "?C \<noteq> []" and notin: "T \<notin> set ?C" by auto
        from ne have "X \<noteq> {}" using F by (auto simp: connected_input_members_def)
        moreover have "\<forall>x \<in> set ?C. \<exists>y \<in> X. (x, y) \<in> (inbound ls)\<inverse>"
          using F by (auto simp: set_connected)
        ultimately have "(set ?C, X) \<in> max_ext ((inbound ls)\<inverse>)"
          using F by (auto intro!: max_extI)
        from 1 [OF this] obtain b where "check_for_circular_references ls T ?C = Some b" by blast
        with ne notin show ?thesis
          by (subst check_for_circular_references.simps) (simp add: Let_def)
      qed
    qed
  qed
  then show ?thesis by blast
qed


text \<open>
  Claim C10. \<^verbatim>\<open>add_input\<close> changes nothing (no line is added and no configuration is
  saved: the whole editor state is the one before) when the target of the proposed edge is
  its source, or when a line with the same (target, source) key exists.
\<close>

theorem add_input_leaves_edges_unchanged:
  assumes "new_line st = Some nl"
    and "target_id = nl_input_member_id nl \<or> (target_id, nl_input_member_id nl) \<in> fst ` set (lines st)"
  shows "snd (add_input st target_id) = st"
  using assms by (auto simp: add_input_def Let_def)

theorem add_input_leaves_edges_unchanged_witness:
  "add_input (ex_settings ''1'' False) ''1'' = (SameMember, ex_settings ''1'' False) \<and>
   add_input (ex_settings ''1'' False) ''2'' = (AlreadyConnected, ex_settings ''1'' False)"
proof -
  have a: "snd (add_input (ex_settings ''1'' False) ''1'') = ex_settings ''1'' False"
    by (rule add_input_leaves_edges_unchanged [where nl = "\<lparr>nl_input_member_id = ''1'', nl_looper = False\<rparr>"])
       (simp_all add: ex_settings_def)
  have b: "snd (add_input (ex_settings ''1'' False) ''2'') = ex_settings ''1'' False"
    by (rule add_input_leaves_edges_unchanged [where nl = "\<lparr>nl_input_member_id = ''1'', nl_looper = False\<rparr>"])
       (simp_all add: ex_settings_def ex_lines_def)
  have c: "fst (add_input (ex_settings ''1'' False) ''1'') = SameMember"
    by (simp add: add_input_def ex_settings_def Let_def)
  have d: "fst (add_input (ex_settings ''1'' False) ''2'') = AlreadyConnected"
    by (simp add: add_input_def ex_settings_def ex_lines_def Let_def)
  from a b c d show ?thesis by (metis prod.collapse)
qed

text \<open>
  Claim C3. For a target \<open>T\<close> and a candidate source \<open>S\<close>, the check returns true
  exactly when \<open>T\<close> is reached from \<open>S\<close> by following non-loop edges from a member to
  the members it depends on; when it returns false, \<open>T\<close> is not reached; and on an acyclic
  set of non-loop edges it always returns. An edge flagged as a loop edge never takes the
  circular-reference exit of \<^verbatim>\<open>add_input\<close>, and where the same edge without the flag is
  rejected as circular, the flagged edge is added to the lines.
\<close>

theorem circular_reference_check:
  "(check_for_circular_references ls T [S] = Some True \<longleftrightarrow> (S, T) \<in> (inbound ls)\<^sup>+) \<and>
   (check_for_circular_references ls T [S] = Some False \<longrightarrow> (S, T) \<notin> (inbound ls)\<^sup>+) \<and>
   (acyclic (inbound ls) \<longrightarrow>
      check_for_circular_references ls T [S] = Some ((S, T) \<in> (inbound ls)\<^sup>+)) \<and>
   (new_line st = Some nl \<and> nl_looper nl \<longrightarrow> fst (add_input st T) \<noteq> CircularReference) \<and>
   (fst (add_input (st\<lparr>new_line := Some (nl\<lparr>nl_looper := False\<rparr>)\<rparr>) T) = CircularReference \<and>
    map_of (members_in_view st) T = Some (Some c1) \<and>
    map_of (members_in_view st) (nl_input_member_id nl) = Some (Some c2) \<longrightarrow>
      lines (snd (add_input (st\<lparr>new_line := Some (nl\<lparr>nl_looper := True\<rparr>)\<rparr>) T)) =
        lines st @ [((T, nl_input_member_id nl), \<lparr>line_looper = True, line_input_type = ''Message''\<rparr>)])"
proof -
  have 1: "check_for_circular_references ls T [S] = Some True \<longleftrightarrow> (S, T) \<in> (inbound ls)\<^sup>+"
    using check_sound [of ls T "[S]" True] check_true_complete [of S T ls "[S]"] by auto
  have 2: "check_for_circular_references ls T [S] = Some False \<longrightarrow> (S, T) \<notin> (inbound ls)\<^sup>+"
    using check_sound [of ls T "[S]" False] by auto
  have 3: "acyclic (inbound ls) \<longrightarrow>
      check_for_circular_references ls T [S] = Some ((S, T) \<in> (inbound ls)\<^sup>+)"
    using check_terminates [of ls T "[S]"] check_sound [of ls T "[S]"] by auto
  have 4: "new_line st = Some nl \<and> nl_looper nl \<longrightarrow> fst (add_input st T) \<noteq> CircularReference"
    by (auto simp: add_input_def Let_def save_config_def split: option.splits sum.splits)
  have 5: "fst (add_input (st\<lparr>new_line := Some (nl\<lparr>nl_looper := False\<rparr>)\<rparr>) T) = CircularReference \<and>
    map_of (members_in_view st) T = Some (Some c1) \<and>
    map_of (members_in_view st) (nl_input_member_id nl) = Some (Some c2) \<longrightarrow>
      lines (snd (add_input (st\<lparr>new_line := Some (nl\<lparr>nl_looper := True\<rparr>)\<rparr>) T)) =
        lines st @ [((T, nl_input_member_id nl), \<lparr>line_looper = True, line_input_type = ''Message''\<rparr>)]"
    by (auto simp: add_input_def Let_def save_config_def split: option.splits sum.splits if_splits)
  from 1 2 3 4 5 show ?thesis by blast
qed

lemma ex_inbound: "inbound ex_lines = {(''2'', ''1'')}"
  by (auto simp: inbound_def ex_lines_def)

theorem circular_reference_check_witness:
  "acyclic (inbound ex_lines) \<and>
   check_for_circular_references ex_lines ''1'' [''2''] = Some True \<and>
   (''2'', ''1'') \<in> (inbound ex_lines)\<^sup>+ \<and>
   fst (add_input (ex_settings ''2'' False) ''1'') = CircularReference \<and>
   fst (add_input (ex_settings ''2'' True) ''1'') \<noteq> CircularReference \<and>
   lines (snd (add_input (ex_settings ''2'' True) ''1'')) =
     ex_lines @ [((''1'', ''2''), \<lparr>line_looper = True, line_input_type = ''Message''\<rparr>)]"
proof -
  note inst = circular_reference_check [of ex_lines "''1''" "''2''" "ex_settings ''2'' True"
      "\<lparr>nl_input_member_id = ''2'', nl_looper = True\<rparr>" agent_cfg agent_cfg]
  have ac: "acyclic (inbound ex_lines)"
    by (simp add: ex_inbound acyclic_insert) (simp add: acyclic_def)
  have chk: "check_for_circular_references ex_lines ''1'' [''2''] = Some True"
    by (simp add: check_for_circular_references.simps ex_lines_def connected_input_members_def)
  have rej: "fst (add_input (ex_settings ''2'' False) ''1'') = CircularReference"
    by (simp add: add_input_def ex_settings_def Let_def chk) (simp add: ex_lines_def)
  have st: "ex_settings ''2'' True\<lparr>new_line := Some (\<lparr>nl_input_member_id = ''2'', nl_looper = True\<rparr>\<lparr>nl_looper := False\<rparr>)\<rparr>
       = ex_settings ''2'' False"
     "ex_settings ''2'' True\<lparr>new_line := Some (\<lparr>nl_input_member_id = ''2'', nl_looper = True\<rparr>\<lparr>nl_looper := True\<rparr>)\<rparr>
       = ex_settings ''2'' True"
    by (simp_all add: ex_settings_def)
  have mv: "map_of (members_in_view (ex_settings ''2'' True)) ''1'' = Some (Some agent_cfg)"
      "map_of (members_in_view (ex_settings ''2'' True)) ''2'' = Some (Some agent_cfg)"
      "new_line (ex_settings ''2'' True) = Some \<lparr>nl_input_member_id = ''2'', nl_looper = True\<rparr>"
      "lines (ex_settings ''2'' True) = ex_lines"
    by (simp_all add: ex_settings_def)
  from inst ac chk rej mv show ?thesis
    unfolding st by simp
qed

section \<open>The turn parity flag\<close>

lemma history_add_parity:
  "alt_turn_state (fst (history_add w role content mid)) = alt_turn_state w"
  by (simp add: history_add_def Let_def)

lemma None_notin_map_iff: "(None \<notin> set (map f xs)) = (\<forall>x \<in> set xs. f x \<noteq> None)"
  by (induction xs) auto

text \<open>
  Claim C5, as the code has it. \<^verbatim>\<open>save_message\<close> toggles the parity flag (replaces it by
  one minus its value) exactly when the message is stored, that is, its content after the
  replacement of a blank \<^verbatim>\<open>output\<close> is not empty, and none of the members that
  \<^verbatim>\<open>get_members()\<close> returns has an unset \<^verbatim>\<open>turn_output\<close>: every participant other than
  a structural node has already produced its output. In every other case the flag keeps its
  value.
\<close>

theorem save_message_parity:
  "alt_turn_state (fst (save_message w role content mid)) =
     (if stored_content role content \<noteq> [] \<and>
         (\<forall>m \<in> set (get_members w None None). turn_output m \<noteq> None)
      then 1 - alt_turn_state w else alt_turn_state w)"
proof -
  show ?thesis
    unfolding save_message_def Let_def None_notin_map_iff by (auto simp: history_add_parity)
qed

theorem save_message_parity_witness:
  "alt_turn_state (fst (save_message wf_done ''user'' ''hi'' ''1'')) = 1 \<and>
   alt_turn_state (fst (save_message wf_fresh ''user'' ''hi'' ''1'')) = 0 \<and>
   alt_turn_state (fst (save_message wf_done ''user'' [] ''1'')) = 0"
proof -
  have g1: "get_members wf_done None None = [mk_member ''1'' agent_cfg (Some ''hello'')]"
    by (simp add: get_members_def wf_done_def mk_workflow_def mk_member_def agent_cfg_def
        config_type_def)
  have g2: "get_members wf_fresh None None = [mk_member ''1'' agent_cfg None]"
    by (simp add: get_members_def wf_fresh_def mk_workflow_def mk_member_def agent_cfg_def
        config_type_def)
  have a: "alt_turn_state wf_done = 0" "alt_turn_state wf_fresh = 0"
    by (simp_all add: wf_done_def wf_fresh_def mk_workflow_def)
  show ?thesis
    using save_message_parity [of wf_done "''user''" "''hi''" "''1''"]
      save_message_parity [of wf_fresh "''user''" "''hi''" "''1''"]
      save_message_parity [of wf_done "''user''" "[]" "''1''"]
    by (simp add: g1 g2 a stored_content_def mk_member_def)
qed

text \<open>
  The claim as worded has the flag toggled when every participant's \<^verbatim>\<open>turn_output\<close> is
  unset. With one agent that has not answered, a stored message leaves the flag alone.
\<close>

theorem save_message_fresh_turn_keeps_parity:
  "map (\<lambda>p. turn_output (snd p)) (members wf_fresh) = [None] \<and>
   alt_turn_state wf_fresh = 0 \<and>
   alt_turn_state (fst (save_message wf_fresh ''user'' ''hi'' ''1'')) = 0 \<and>
   snd (save_message wf_fresh ''user'' ''hi'' ''1'') =
     Some \<lparr>msg_role = ''user'', msg_content = ''hi'', msg_member_id = ''1''\<rparr>"
  by (simp add: save_message_def Let_def stored_content_def history_add_def get_members_def
      wf_fresh_def mk_workflow_def mk_member_def agent_cfg_def config_type_def)

section \<open>Single-participant documents\<close>

text \<open>
  Claim C8, as the code has it. A document that is not a workflow is wrapped before its
  members are instantiated. When its kind is agent (also by default, the kind being absent)
  the member list is a user with id 1 followed by the document itself with id 2; when it is
  of any other kind the member list is the document alone, with id 1. The inputs of the
  wrapped document are empty.
\<close>

theorem config_members_single:
  assumes "config_type c \<noteq> ''workflow''"
  shows "config_members c =
           Inr (if config_type c = ''agent''
                then [MemberDict ''1'' None 20 64 (Config (Some ''user'') None None None None None),
                      MemberDict ''2'' None 100 80 c]
                else [MemberDict ''1'' None 100 80 c]) \<and>
         c_inputs (merge_config_into_workflow_config c None) = Some [] \<and>
         config_type (merge_config_into_workflow_config c None) = ''workflow''"
  using assms
  by (simp add: config_members_def merge_config_into_workflow_config_def Let_def config_type_def)

theorem config_members_single_witness:
  "config_members agent_cfg =
     Inr [MemberDict ''1'' None 20 64 user_cfg, MemberDict ''2'' None 100 80 agent_cfg]"
  using config_members_single [of agent_cfg]
  by (simp add: agent_cfg_def user_cfg_def config_type_def)

text \<open>
  The claim as worded has every single-participant document wrapped together with a human
  participant. A block document is wrapped alone.
\<close>

theorem config_members_block_alone:
  "config_type block_cfg = ''block'' \<and>
   config_members block_cfg = Inr [MemberDict ''1'' None 100 80 block_cfg]"
  by (simp add: config_members_def merge_config_into_workflow_config_def Let_def
      config_type_def block_cfg_def)

section \<open>The instantiation loop\<close>

subsection \<open>Unfolding the loop\<close>

lemma set_member_input_ids:
  "set (member_input_ids inps t) = {s. (t, s) \<in> dependencies inps}"
proof (intro set_eqI iffI)
  fix s assume "s \<in> set (member_input_ids inps t)"
  then obtain i where "i \<in> set inps" "inp_member_id i = t" "\<not> inp_looper i"
      "s = inp_input_member_id i"
    by (auto simp: member_input_ids_def)
  then show "s \<in> {s. (t, s) \<in> dependencies inps}"
    unfolding dependencies_def by blast
next
  fix s assume "s \<in> {s. (t, s) \<in> dependencies inps}"
  then obtain i where "i \<in> set inps" "inp_member_id i = t" "\<not> inp_looper i"
      "s = inp_input_member_id i"
    unfolding dependencies_def by blast
  then show "s \<in> set (member_input_ids inps t)"
    unfolding member_input_ids_def by simp
qed



lemma loop_wrap:
  "ms \<noteq> [] \<Longrightarrow> length ms \<le> it \<Longrightarrow>
     load_members_loop c inps it ms st = load_members_loop c inps 0 ms st"
  by (subst load_members_loop.simps) simp





lemma members_group_member: "ls_members (group_member st mid x) = ls_members st"
  by (simp add: group_member_def Let_def)

lemma members_instantiate_member:
  "ls_members (instantiate_member st md ids) =
     AList.update (md_id md) (new_member md ids) (ls_members st)"
  by (simp add: instantiate_member_def Let_def members_group_member)

lemma keys_instantiate_member:
  "fst ` set (ls_members (instantiate_member st md ids)) =
     insert (md_id md) (fst ` set (ls_members st))"
  by (simp add: members_instantiate_member AList.dom_update)




subsection \<open>Termination\<close>

lemma members_flush_box: "ls_members (flush_box st) = ls_members st"
  by (simp add: flush_box_def)

lemma diamond_members:
  "config_members diamond_doc =
     Inr [MemberDict ''C'' None 200 0 agent_cfg, MemberDict ''A'' None 100 0 agent_cfg,
          MemberDict ''U'' None 0 0 user_cfg, MemberDict ''B'' None 100 0 agent_cfg]"
  by (simp add: config_members_def diamond_doc_def config_type_def)





text \<open>
  A participant of a kind that \<^verbatim>\<open>load_members\<close> has no constructor for makes it raise,
  whatever the constructors do.
\<close>

lemma load_members_unknown_kind:
  "config_members tool_doc = Inr [MemberDict ''1'' None 0 0 tool_cfg] \<and>
   config_inputs tool_doc = [] \<and>
   instantiate_members always tool_doc = Some (Inl (NotImplementedError ''tool''))"
  by code_simp

section \<open>Invariants of the instantiation loop\<close>

lemma ready_cond:
  "(member_input_ids inps (md_id md) \<noteq> [] \<and>
    (\<exists>inp_id \<in> set (member_input_ids inps (md_id md)). inp_id \<notin> fst ` set (ls_members st))) =
   (\<not> ready inps st md)"
  unfolding ready_def by auto

lemma loop_invariant:
  assumes run: "load_members_loop c inps it0 ms0 st0 = Some (Inr st')"
    and init: "I ms0 st0"
    and step: "\<And>ms st md. I ms st \<Longrightarrow> md \<in> set ms \<Longrightarrow> ready inps st md \<Longrightarrow> known_kind md \<Longrightarrow>
                 I (remove1 md ms) (instantiate_member st md (member_input_ids inps (md_id md)))"
  shows "I [] st'"
proof -
  have "c' = c \<longrightarrow> inps' = inps \<longrightarrow> (\<forall>s. r = Inr s \<longrightarrow> I ms st \<longrightarrow> I [] s)"
    if "load_members_loop c' inps' it ms st = Some r" for c' inps' it ms st r
    using that
  proof (rule load_members_loop.raw_induct
      [where P = "\<lambda>c' inps' it ms st r. c' = c \<longrightarrow> inps' = inps \<longrightarrow>
                     (\<forall>s. r = Inr s \<longrightarrow> I ms st \<longrightarrow> I [] s)", rotated], goal_cases)
    case (1 loop c' inps' it ms st r)
    show ?case
    proof (intro impI allI)
      fix s assume c: "c' = c" and i: "inps' = inps" and r: "r = Inr s" and inv: "I ms st"
      show "I [] s"
      proof (cases "ms = []")
        case True
        with 1(2) r inv show ?thesis by simp
      next
        case ne: False
        show ?thesis
        proof (cases "length ms \<le> it")
          case True
          with ne 1(2) have "loop c' inps' 0 ms st = Some r" by simp
          from 1(1) [OF this] c i r inv show ?thesis by blast
        next
          case lt: False
          let ?md = "ms ! it"
          let ?ids = "member_input_ids inps (md_id ?md)"
          show ?thesis
          proof (cases "ready inps st ?md")
            case False
            with ne lt 1(2) i have "loop c' inps' (Suc it) ms st = Some r"
              by (simp add: Let_def ready_cond)
            from 1(1) [OF this] c i r inv show ?thesis by blast
          next
            case rdy: True
            have kk: "known_kind ?md"
            proof (rule ccontr)
              assume "\<not> known_kind ?md"
              with ne lt rdy 1(2) i have "r = Inl (NotImplementedError (config_type (md_config ?md)))"
                by (simp add: Let_def ready_cond known_kind_def)
              with r show False by simp
            qed
            have "c ?md ?ids = Constructed \<and>
                  loop c' inps' 0 (remove1 ?md ms) (instantiate_member st ?md ?ids) = Some r"
              using ne lt rdy kk 1(2) i c r
              by (auto simp: Let_def ready_cond known_kind_def split: ctor_result.splits if_splits)
            then have run': "loop c' inps' 0 (remove1 ?md ms) (instantiate_member st ?md ?ids) = Some r"
              by simp
            from lt have "?md \<in> set ms" by simp
            from step [OF inv this rdy kk]
            have "I (remove1 ?md ms) (instantiate_member st ?md ?ids)" .
            with 1(1) [OF run'] c i r show ?thesis by blast
          qed
        qed
      qed
    qed
  qed
  from this [OF run] init show ?thesis by blast
qed

subsection \<open>The inputs of the instantiated members\<close>

lemma loop_inputs:
  assumes run: "load_members_loop c inps it ms st = Some (Inr st')"
    and init: "\<forall>k m. map_of (ls_members st) k = Some m \<longrightarrow> inputs m = member_input_ids inps k"
  shows "\<forall>k m. map_of (ls_members st') k = Some m \<longrightarrow> inputs m = member_input_ids inps k"
proof (rule loop_invariant [where I = "\<lambda>ms st. \<forall>k m. map_of (ls_members st) k = Some m \<longrightarrow>
          inputs m = member_input_ids inps k", OF run init], goal_cases)
  case (1 ms st md)
  then show ?case
    by (simp add: members_instantiate_member update_conv' new_member_def)
qed

section \<open>Validation of the boxes\<close>

subsection \<open>The walk over the inputs\<close>

lemma walk_loop_False:
  "walk_inputs_loop d ms rest box found = Inr False \<Longrightarrow>
     \<not> found \<and> (\<forall>i \<in> set rest. i \<notin> set box \<and> walk_inputs_recursive d ms i box = Inr False)"
proof (induction rest arbitrary: found)
  case Nil
  then show ?case by simp
next
  case (Cons i rest)
  from Cons.prems have notin: "i \<notin> set box" by (auto split: if_splits)
  show ?case
  proof (cases found)
    case True
    with Cons.prems notin have "walk_inputs_loop d ms rest box True = Inr False" by simp
    from Cons.IH [OF this] show ?thesis by simp
  next
    case False
    with Cons.prems notin obtain r where r: "walk_inputs_recursive d ms i box = Inr r"
      "walk_inputs_loop d ms rest box r = Inr False"
      by (auto split: sum.splits)
    from Cons.IH [OF r(2)] r(1) notin False show ?thesis by simp
  qed
qed

lemma walk_False_sound:
  assumes ok: "\<forall>k m. map_of ms k = Some m \<longrightarrow> set (inputs m) = {s. (k, s) \<in> D}"
  shows "walk_inputs_recursive d ms a box = Inr False \<Longrightarrow> (a, b) \<in> D\<^sup>+ \<Longrightarrow> b \<notin> set box"
proof (induction d arbitrary: a)
  case 0
  then show ?case by simp
next
  case (Suc d)
  from Suc.prems(1) obtain m where m: "map_of ms a = Some m"
      "walk_inputs_loop d ms (inputs m) box False = Inr False"
    by (auto split: option.splits)
  from walk_loop_False [OF m(2)]
  have ins: "\<forall>i \<in> set (inputs m). i \<notin> set box \<and> walk_inputs_recursive d ms i box = Inr False"
    by simp
  from ok m(1) have im: "set (inputs m) = {s. (a, s) \<in> D}" by blast
  from Suc.prems(2) consider "(a, b) \<in> D" | s where "(a, s) \<in> D" "(s, b) \<in> D\<^sup>+"
    by (meson converse_tranclE)
  then show ?case
  proof cases
    case 1
    with im have "b \<in> set (inputs m)" by simp
    with ins show ?thesis by blast
  next
    case (2 s)
    with im have "s \<in> set (inputs m)" by simp
    with ins have "walk_inputs_recursive d ms s box = Inr False" by blast
    from Suc.IH [OF this 2(2)] show ?thesis .
  qed
qed

lemma walk_set_cong:
  "set box = set box' \<Longrightarrow>
     walk_inputs_recursive d ms a box = walk_inputs_recursive d ms a box'"
  "set box = set box' \<Longrightarrow>
     walk_inputs_loop d ms rest box found = walk_inputs_loop d ms rest box' found"
proof (induction d ms a box and d ms rest box found
    rule: walk_inputs_recursive_walk_inputs_loop.induct)
  case (1 ms mid search_list)
  then show ?case by simp
next
  case (2 d ms mid search_list)
  then show ?case by (simp split: option.splits)
next
  case (3 d ms search_list found)
  then show ?case by simp
next
  case (4 d ms inp rest search_list found)
  then show ?case by (simp split: sum.splits)
qed

subsection \<open>The boxes that are deleted\<close>

lemma box_walk_False:
  "box_walk d ms box mids = Inr False \<Longrightarrow>
     \<forall>a \<in> set mids. walk_inputs_recursive d ms a box = Inr False"
  by (induction mids) (auto split: sum.splits if_splits)

lemma box_walk_True:
  "box_walk d ms box mids = Inr True \<Longrightarrow>
     \<exists>a \<in> set mids. walk_inputs_recursive d ms a box = Inr True"
  by (induction mids) (auto split: sum.splits if_splits)

lemma del_boxes_Inr:
  "del_boxes d ms bs = Inr dl \<Longrightarrow>
     dl = filter (\<lambda>b. box_walk d ms b b = Inr True) bs \<and>
     (\<forall>b \<in> set bs. \<exists>r. box_walk d ms b b = Inr r)"
  by (induction bs arbitrary: dl) (auto split: sum.splits if_splits)

lemma set_remove_box: "set (remove_box c xs) \<subseteq> set xs"
proof (induction xs)
  case Nil
  then show ?case by simp
next
  case (Cons a xs)
  then show ?case by (cases "set a = set c") (simp_all add: subset_insertI2)
qed

lemma count_remove_box:
  "length (filter (\<lambda>x. set x = S) (remove_box c xs)) =
     length (filter (\<lambda>x. set x = S) xs) - (if set c = S then 1 else 0)"
proof (induction xs)
  case Nil
  then show ?case by simp
next
  case (Cons a xs)
  show ?case
  proof (cases "set a = set c")
    case True
    then show ?thesis by simp
  next
    case False
    show ?thesis
    proof (cases "set a = S")
      case True
      with False have "set c \<noteq> S" by simp
      with True False Cons.IH show ?thesis by simp
    next
      case F2: False
      with False Cons.IH show ?thesis by simp
    qed
  qed
qed


lemma set_fold_remove_box: "set (fold remove_box dl xs) \<subseteq> set xs"
proof (induction dl arbitrary: xs)
  case Nil
  then show ?case by simp
next
  case (Cons c dl)
  have "set (fold remove_box dl (remove_box c xs)) \<subseteq> set (remove_box c xs)" by (rule Cons.IH)
  also have "\<dots> \<subseteq> set xs" by (rule set_remove_box)
  finally show ?case by simp
qed

lemma count_fold_remove_box:
  "length (filter (\<lambda>x. set x = S) (fold remove_box dl xs)) =
     length (filter (\<lambda>x. set x = S) xs) - length (filter (\<lambda>c. set c = S) dl)"
proof (induction dl arbitrary: xs)
  case Nil
  then show ?case by simp
next
  case (Cons c dl)
  show ?case by (cases "set c = S") (simp_all add: Cons.IH count_remove_box)
qed

lemma fold_remove_box_filter:
  assumes cong: "\<And>x y. x \<in> set xs \<Longrightarrow> y \<in> set xs \<Longrightarrow> set x = set y \<Longrightarrow> bad x = bad y"
    and b: "b \<in> set (fold remove_box (filter bad xs) xs)"
  shows "b \<in> set xs \<and> \<not> bad b"
proof
  from b set_fold_remove_box [of "filter bad xs" xs] show bx: "b \<in> set xs" by (rule subsetD [rotated])
  show "\<not> bad b"
  proof
    assume bad: "bad b"
    define S where "S = set b"
    have all: "bad x" if "x \<in> set xs" "set x = S" for x
    proof -
      from that(2) have "set x = set b" by (simp only: S_def)
      from cong [OF that(1) bx this] bad show ?thesis by simp
    qed
    have "filter (\<lambda>c. set c = S) (filter bad xs) = filter (\<lambda>x. bad x \<and> set x = S) xs"
      by (simp only: filter_filter)
    also have "\<dots> = filter (\<lambda>x. set x = S) xs"
    proof (rule filter_cong [OF refl])
      fix x assume "x \<in> set xs"
      then show "(bad x \<and> set x = S) = (set x = S)" using all [of x] by (cases "set x = S") simp_all
    qed
    finally have "length (filter (\<lambda>x. set x = S) (fold remove_box (filter bad xs) xs)) = 0"
      by (simp only: count_fold_remove_box diff_self_eq_0)
    then have "filter (\<lambda>x. set x = S) (fold remove_box (filter bad xs) xs) = []"
      by (simp only: length_0_conv)
    then have "\<not> (set b = S)" using b by (simp only: filter_empty_conv) blast
    then show False by (simp only: S_def not_True_eq_False simp_thms)
  qed
qed

lemma bad_box_cong:
  assumes tot: "\<forall>b \<in> set bs. \<exists>r. box_walk d ms b b = Inr r"
    and u: "u \<in> set bs" and v: "v \<in> set bs" and e: "set u = set v"
    and bad: "box_walk d ms u u = Inr True"
  shows "box_walk d ms v v = Inr True"
proof -
  from box_walk_True [OF bad] obtain a where a: "a \<in> set u"
      "walk_inputs_recursive d ms a u = Inr True" by blast
  from tot v obtain r where r: "box_walk d ms v v = Inr r" by blast
  show ?thesis
  proof (cases r)
    case True
    with r show ?thesis by simp
  next
    case False
    with r have "box_walk d ms v v = Inr False" by simp
    from box_walk_False [OF this] have "\<forall>x \<in> set v. walk_inputs_recursive d ms x v = Inr False" .
    moreover from a(1) e have "a \<in> set v" by (simp only:)
    ultimately have "walk_inputs_recursive d ms a v = Inr False" by (rule bspec)
    moreover have "walk_inputs_recursive d ms a u = walk_inputs_recursive d ms a v"
      by (rule walk_set_cong(1) [OF e])
    ultimately show ?thesis using a(2) by simp
  qed
qed

lemma validate_boxes_retained:
  assumes v: "validate_boxes d ms bs = Inr bs'" and b: "b \<in> set bs'"
  shows "b \<in> set bs \<and> (\<forall>a \<in> set b. walk_inputs_recursive d ms a b = Inr False)"
proof -
  define bad where "bad = (\<lambda>b. box_walk d ms b b = Inr True)"
  from v obtain dl where dl: "del_boxes d ms bs = Inr dl" and bs': "bs' = fold remove_box dl bs"
    by (cases "del_boxes d ms bs") (simp_all add: validate_boxes_def)
  from del_boxes_Inr [OF dl] have f: "dl = filter bad bs"
    and tot: "\<forall>b \<in> set bs. \<exists>r. box_walk d ms b b = Inr r" by (simp_all add: bad_def)
  have imp: "bad y" if "x \<in> set bs" "y \<in> set bs" "set x = set y" "bad x" for x y
    using bad_box_cong [where d = d and ms = ms and bs = bs and u = x and v = y] tot that
    by (simp add: bad_def)
  have cong: "bad x = bad y" if "x \<in> set bs" "y \<in> set bs" "set x = set y" for x y
    using imp [of x y] imp [of y x] that by (cases "bad x"; cases "bad y") simp_all
  have mem: "b \<in> set (fold remove_box (filter bad bs) bs)"
    using b bs' f by simp
  have "b \<in> set bs \<and> \<not> bad b"
    using cong mem by (rule fold_remove_box_filter)
  then have bx: "b \<in> set bs" and nb: "box_walk d ms b b \<noteq> Inr True"
    by (simp_all add: bad_def)
  from tot bx obtain r where "box_walk d ms b b = Inr r" by blast
  with nb have "box_walk d ms b b = Inr False" by (cases r) simp_all
  from box_walk_False [OF this] bx show ?thesis by simp
qed

subsection \<open>The boxes that are kept\<close>

lemma set_chat_name_boxes:
  "set_chat_name w = Inr w' \<Longrightarrow> boxes w' = boxes w \<and> members w' = members w"
  by (auto simp: set_chat_name_def Let_def split: if_splits list.splits)

lemma load_members_Inr:
  assumes "load_members construct depth w = Some (Inr w')"
  obtains ms st where "config_members (wconfig w) = Inr ms"
    "load_members_loop construct (config_inputs (wconfig w)) 0 (sort_key md_loc_x ms)
       init_load_state = Some (Inr st)"
    "validate_boxes depth (ls_members st) (ls_boxes (flush_box st)) = Inr (boxes w')"
    "members w' = ls_members st"
proof -
  from assms obtain st' where i: "instantiate_members construct (wconfig w) = Some (Inr st')"
    by (auto simp: load_members_def split: option.splits sum.splits)
  from i obtain ms where ms: "config_members (wconfig w) = Inr ms"
    by (auto simp: instantiate_members_def split: sum.splits)
  from i ms obtain st where st: "load_members_loop construct (config_inputs (wconfig w)) 0
       (sort_key md_loc_x ms) init_load_state = Some (Inr st)" and st': "st' = flush_box st"
    by (auto simp: instantiate_members_def split: option.splits sum.splits)
  from assms i obtain bs where bs: "validate_boxes depth (ls_members st') (ls_boxes st') = Inr bs"
    and c: "set_chat_name (w\<lparr>members := ls_members st', boxes := bs\<rparr>) = Inr w'"
    by (auto simp: load_members_def split: sum.splits)
  from set_chat_name_boxes [OF c] have "boxes w' = bs" "members w' = ls_members st'" by simp_all
  with bs st' ms st that show thesis by (simp add: members_flush_box)
qed

text \<open>
  Claim C1. Whenever \<^verbatim>\<open>load_members\<close> returns, no member of a box that is still in
  \<^verbatim>\<open>self.boxes\<close> reaches a member of the same box (another one or itself) by following
  inputs that are not loop inputs, from a member to the members it depends on, over one
  step or more.
\<close>

theorem retained_boxes_independent:
  assumes "load_members construct depth w = Some (Inr w')"
  shows "\<forall>box \<in> set (boxes w'). \<forall>a \<in> set box. \<forall>b \<in> set box.
           (a, b) \<notin> (dependencies (config_inputs (wconfig w)))\<^sup>+"
proof (intro ballI)
  fix box a b assume box: "box \<in> set (boxes w')" and a: "a \<in> set box" and b: "b \<in> set box"
  let ?inps = "config_inputs (wconfig w)"
  from assms obtain ms st where
    run: "load_members_loop construct ?inps 0 (sort_key md_loc_x ms) init_load_state = Some (Inr st)"
    and v: "validate_boxes depth (ls_members st) (ls_boxes (flush_box st)) = Inr (boxes w')"
    by (rule load_members_Inr)
  have "\<forall>k m. map_of (ls_members st) k = Some m \<longrightarrow> inputs m = member_input_ids ?inps k"
    using run by (rule loop_inputs) (simp add: init_load_state_def)
  then have ok: "\<forall>k m. map_of (ls_members st) k = Some m \<longrightarrow>
      set (inputs m) = {s. (k, s) \<in> dependencies ?inps}"
    by (simp add: set_member_input_ids)
  from validate_boxes_retained [OF v box] a
  have "walk_inputs_recursive depth (ls_members st) a box = Inr False" by simp
  from walk_False_sound [OF ok this] b show "(a, b) \<notin> (dependencies ?inps)\<^sup>+" by blast
qed

lemma diamond_boxes:
  "map_option (map_sum id boxes) (load_members always 10 (workflow_of diamond_doc)) =
     Some (Inr [[''B'', ''A'']])"
  by code_simp

lemma chain_boxes:
  "map_option (map_sum id boxes) (load_members always 10 (workflow_of chain_doc)) = Some (Inr [])"
  by code_simp

lemma chain_groups:
  "map_option (map_sum id ls_boxes) (instantiate_members always chain_doc) =
     Some (Inr [[''B'', ''A'']])"
  by code_simp

theorem retained_boxes_independent_witness:
  "(\<exists>w'. load_members always 10 (workflow_of diamond_doc) = Some (Inr w') \<and>
         boxes w' = [[''B'', ''A'']]) \<and>
   (''A'', ''B'') \<notin> (dependencies (config_inputs diamond_doc))\<^sup>+ \<and>
   (''B'', ''A'') \<notin> (dependencies (config_inputs diamond_doc))\<^sup>+"
proof -
  from diamond_boxes obtain w' where w': "load_members always 10 (workflow_of diamond_doc) = Some (Inr w')"
    "boxes w' = [[''B'', ''A'']]"
    by (cases "load_members always 10 (workflow_of diamond_doc)") (auto simp: map_sum_def split: sum.splits)
  have c: "wconfig (workflow_of diamond_doc) = diamond_doc"
    by (simp add: workflow_of_def)
  from retained_boxes_independent [OF w'(1)] w'(2) c
  have "(''A'', ''B'') \<notin> (dependencies (config_inputs diamond_doc))\<^sup>+"
    "(''B'', ''A'') \<notin> (dependencies (config_inputs diamond_doc))\<^sup>+" by simp_all
  with w' show ?thesis by blast
qed

section \<open>Grouping by proximity\<close>

subsection \<open>One step of the loop\<close>

lemma update_fresh:
  "k \<notin> fst ` set al \<Longrightarrow> AList.update k v al = al @ [(k, v)]"
  by (induction al) auto

lemma new_member_simps:
  "member_id (new_member md ids) = md_id md"
  "config (new_member md ids) = md_config md"
  "loc_x (new_member md ids) = md_loc_x md"
  by (simp_all add: new_member_def)

lemma instantiate_member_plain:
  "\<not> grouped_kind (md_config md) \<Longrightarrow>
     instantiate_member st md ids =
       st\<lparr>ls_members := AList.update (md_id md) (new_member md ids) (ls_members st)\<rparr>"
  by (simp add: instantiate_member_def grouped_kind_def Let_def)

lemma instantiate_member_grouped:
  "grouped_kind (md_config md) \<Longrightarrow>
     instantiate_member st md ids =
       (group_member st (md_id md) (md_loc_x md))
         \<lparr>ls_members := AList.update (md_id md) (new_member md ids) (ls_members st)\<rparr>"
  by (simp add: instantiate_member_def grouped_kind_def Let_def members_group_member)

lemma group_member_close:
  "abs (x - last_loc_x st) < 10 \<Longrightarrow>
     ls_boxes (group_member st k x) = ls_boxes st \<and>
     set (current_box_member_ids (group_member st k x)) =
       insert k (set_option (last_member_id st) \<union> set (current_box_member_ids st)) \<and>
     last_member_id (group_member st k x) = Some k \<and> last_loc_x (group_member st k x) = x"
  by (cases "last_member_id st") (simp_all add: group_member_def Let_def)

lemma group_member_far:
  "\<not> abs (x - last_loc_x st) < 10 \<Longrightarrow>
     ls_boxes (group_member st k x) =
       (if current_box_member_ids st \<noteq> [] then ls_boxes st @ [current_box_member_ids st]
        else ls_boxes st) \<and>
     current_box_member_ids (group_member st k x) = [] \<and>
     last_member_id (group_member st k x) = Some k \<and> last_loc_x (group_member st k x) = x"
  by (simp add: group_member_def Let_def)

lemma grouped_members_step:
  assumes "md_id md \<notin> fst ` set (ls_members st)"
  shows "grouped_members (instantiate_member st md ids) =
           (if grouped_kind (md_config md) then grouped_members st @ [new_member md ids]
            else grouped_members st)"
  using assms
  by (simp add: grouped_members_def members_instantiate_member update_fresh new_member_simps)

lemma last_ok_step:
  assumes fresh: "md_id md \<notin> fst ` set (ls_members st)" and ok: "last_ok st"
  shows "last_ok (instantiate_member st md ids)"
proof (cases "grouped_kind (md_config md)")
  case False
  with ok show ?thesis
    by (simp add: last_ok_def grouped_members_step [OF fresh])
       (simp add: instantiate_member_plain)
next
  case True
  have a: "last_member_id (instantiate_member st md ids) = Some (md_id md)"
      "last_loc_x (instantiate_member st md ids) = md_loc_x md"
    using True group_member_close [of "md_loc_x md" st "md_id md"]
      group_member_far [of "md_loc_x md" st "md_id md"]
    by (cases "abs (md_loc_x md - last_loc_x st) < 10"; simp add: instantiate_member_grouped)+
  with True show ?thesis
    by (simp add: last_ok_def grouped_members_step [OF fresh] new_member_simps)
qed


lemma same_box_mono:
  assumes "same_box B p q"
    and "\<And>b. b \<in> set B \<Longrightarrow> b \<noteq> [] \<Longrightarrow> \<exists>b' \<in> set B'. set b \<subseteq> set b'"
  shows "same_box B' p q"
proof -
  from assms(1) obtain b where b: "b \<in> set B" "member_id p \<in> set b" "member_id q \<in> set b"
    unfolding same_box_def by blast
  then have "b \<noteq> []" by auto
  from assms(2) [OF b(1) this] obtain b' where "b' \<in> set B'" "set b \<subseteq> set b'" by blast
  with b(2,3) show ?thesis unfolding same_box_def by blast
qed

lemma boxes_step_mono:
  assumes b: "b \<in> set (current_box_member_ids st # ls_boxes st)" and ne: "b \<noteq> []"
  shows "\<exists>b' \<in> set (current_box_member_ids (group_member st k x) # ls_boxes (group_member st k x)).
           set b \<subseteq> set b'"
proof (cases "abs (x - last_loc_x st) < 10")
  case True
  from group_member_close [OF True, of k]
  have bs: "ls_boxes (group_member st k x) = ls_boxes st"
    and cur: "set (current_box_member_ids st) \<subseteq> set (current_box_member_ids (group_member st k x))"
    by auto
  from b consider "b = current_box_member_ids st" | "b \<in> set (ls_boxes st)" by auto
  then show ?thesis
  proof cases
    case 1
    with cur show ?thesis by simp
  next
    case 2
    with bs show ?thesis by auto
  qed
next
  case False
  note far = group_member_far [OF False, of k]
  from b consider "b = current_box_member_ids st" | "b \<in> set (ls_boxes st)" by auto
  then show ?thesis
  proof cases
    case 1
    with ne have "current_box_member_ids st \<noteq> []" by simp
    with far have "b \<in> set (ls_boxes (group_member st k x))" using 1 by simp
    then show ?thesis by auto
  next
    case 2
    with far have "b \<in> set (ls_boxes (group_member st k x))" by simp
    then show ?thesis by auto
  qed
qed

lemma succ_ok_step:
  assumes fresh: "md_id md \<notin> fst ` set (ls_members st)" and lo: "last_ok st"
    and so: "successively (\<lambda>p q. close_by p q \<longrightarrow>
                same_box (current_box_member_ids st # ls_boxes st) p q) (grouped_members st)"
  shows "successively (\<lambda>p q. close_by p q \<longrightarrow>
            same_box (current_box_member_ids (instantiate_member st md ids) #
                      ls_boxes (instantiate_member st md ids)) p q)
           (grouped_members (instantiate_member st md ids))"
proof (cases "grouped_kind (md_config md)")
  case False
  with so show ?thesis
    by (simp add: grouped_members_step [OF fresh]) (simp add: instantiate_member_plain)
next
  case True
  let ?k = "md_id md" and ?x = "md_loc_x md" and ?m = "new_member md ids"
  let ?g = "group_member st ?k ?x"
  let ?B = "current_box_member_ids st # ls_boxes st"
  let ?B' = "current_box_member_ids ?g # ls_boxes ?g"
  have fields: "current_box_member_ids (instantiate_member st md ids) = current_box_member_ids ?g"
      "ls_boxes (instantiate_member st md ids) = ls_boxes ?g"
    using True by (simp_all add: instantiate_member_grouped)
  have old: "successively (\<lambda>p q. close_by p q \<longrightarrow> same_box ?B' p q) (grouped_members st)"
  proof (rule successively_mono [OF so])
    fix p q assume "close_by p q \<longrightarrow> same_box ?B p q"
    then show "close_by p q \<longrightarrow> same_box ?B' p q"
      using same_box_mono [of ?B p q ?B'] boxes_step_mono [of _ st ?k ?x] by blast
  qed
  have new: "close_by (last (grouped_members st)) ?m \<longrightarrow>
               same_box ?B' (last (grouped_members st)) ?m" if ne: "grouped_members st \<noteq> []"
  proof
    assume c: "close_by (last (grouped_members st)) ?m"
    from lo ne have l: "last_member_id st = Some (member_id (last (grouped_members st)))"
        "last_loc_x st = loc_x (last (grouped_members st))"
      by (simp_all add: last_ok_def)
    from c l(2) have "abs (?x - last_loc_x st) < 10"
      by (simp add: close_by_def new_member_simps)
    from group_member_close [OF this, of ?k] l(1)
    have "member_id (last (grouped_members st)) \<in> set (current_box_member_ids ?g)"
        "?k \<in> set (current_box_member_ids ?g)" by simp_all
    then show "same_box ?B' (last (grouped_members st)) ?m"
      unfolding same_box_def by (simp add: new_member_simps)
  qed
  show ?thesis
    unfolding fields using True old new
    by (auto simp add: grouped_members_step [OF fresh] successively_append_iff)
qed


lemma distinct_map_insort_key:
  "distinct (map f (insort_key g x xs)) = (f x \<notin> f ` set xs \<and> distinct (map f xs))"
  by (induction xs) (auto simp: set_insort_key)

lemma distinct_map_sort_key: "distinct (map f (sort_key g xs)) = distinct (map f xs)"
  by (induction xs) (simp_all add: distinct_map_insort_key)

lemma distinct_map_remove1:
  "distinct (map f xs) \<Longrightarrow> distinct (map f (remove1 x xs))"
  by (induction xs) (auto dest!: set_remove1_subset [THEN subsetD])

lemma removed_id_notin:
  "distinct (map f xs) \<Longrightarrow> x \<in> set xs \<Longrightarrow> f x \<notin> f ` set (remove1 x xs)"
proof (induction xs)
  case Nil
  then show ?case by simp
next
  case (Cons a xs)
  show ?case
  proof (cases "x = a")
    case True
    with Cons.prems(1) show ?thesis by simp
  next
    case False
    with Cons.prems have x: "x \<in> set xs" and d: "distinct (map f xs)"
      and a: "f a \<notin> f ` set xs" by simp_all
    have "f x \<noteq> f a"
    proof
      assume "f x = f a"
      with x have "f a \<in> f ` set xs" by (metis imageI)
      with a show False by simp
    qed
    with Cons.IH [OF d x] False show ?thesis by simp
  qed
qed

lemma kinds_step:
  assumes Q: "grouped_kind (md_config md) \<Longrightarrow> Q (md_id md)"
    and ko: "\<forall>i \<in> set_option (last_member_id st) \<union> set (current_box_member_ids st) \<union>
                 \<Union>(set ` set (ls_boxes st)). Q i"
  shows "\<forall>i \<in> set_option (last_member_id (instantiate_member st md ids)) \<union>
              set (current_box_member_ids (instantiate_member st md ids)) \<union>
              \<Union>(set ` set (ls_boxes (instantiate_member st md ids))). Q i"
proof (cases "grouped_kind (md_config md)")
  case False
  with ko show ?thesis by (simp add: instantiate_member_plain)
next
  case True
  show ?thesis
  proof (cases "abs (md_loc_x md - last_loc_x st) < 10")
    case c: True
    from group_member_close [OF c, of "md_id md"] True ko Q [OF True] show ?thesis
      by (auto simp: instantiate_member_grouped)
  next
    case f: False
    from group_member_far [OF f, of "md_id md"] True ko Q [OF True] show ?thesis
      by (auto simp: instantiate_member_grouped split: if_splits)
  qed
qed

lemma loop_grouping:
  assumes run: "load_members_loop c inps it ms0 init_load_state = Some (Inr st')"
    and dist: "distinct (map md_id ms0)"
  shows "(\<forall>i \<in> set (current_box_member_ids st') \<union> \<Union>(set ` set (ls_boxes st')).
            \<exists>md \<in> set ms0. md_id md = i \<and> grouped_kind (md_config md)) \<and>
         successively (\<lambda>p q. close_by p q \<longrightarrow>
             same_box (current_box_member_ids st' # ls_boxes st') p q) (grouped_members st')"
proof -
  define Q where "Q = (\<lambda>i. \<exists>md \<in> set ms0. md_id md = i \<and> grouped_kind (md_config md))"
  define I where "I = (\<lambda>ms st. set ms \<subseteq> set ms0 \<and> distinct (map md_id ms) \<and>
      fst ` set (ls_members st) \<inter> md_id ` set ms = {} \<and>
      (\<forall>i \<in> set_option (last_member_id st) \<union> set (current_box_member_ids st) \<union>
                 \<Union>(set ` set (ls_boxes st)). Q i) \<and>
      last_ok st \<and>
      successively (\<lambda>p q. close_by p q \<longrightarrow>
         same_box (current_box_member_ids st # ls_boxes st) p q) (grouped_members st))"
  have init: "I ms0 init_load_state"
    unfolding I_def using dist
    by (simp add: init_load_state_def last_ok_def grouped_members_def)
  have step: "I (remove1 md ms) (instantiate_member st md (member_input_ids inps (md_id md)))"
    if inv: "I ms st" and md: "md \<in> set ms" for ms st md
  proof -
    let ?st = "instantiate_member st md (member_input_ids inps (md_id md))"
    from inv have sub: "set ms \<subseteq> set ms0" and d: "distinct (map md_id ms)"
      and disj: "fst ` set (ls_members st) \<inter> md_id ` set ms = {}"
      and ko: "\<forall>i \<in> set_option (last_member_id st) \<union> set (current_box_member_ids st) \<union>
                 \<Union>(set ` set (ls_boxes st)). Q i"
      and lo: "last_ok st"
      and so: "successively (\<lambda>p q. close_by p q \<longrightarrow>
         same_box (current_box_member_ids st # ls_boxes st) p q) (grouped_members st)"
      unfolding I_def by simp_all
    from disj md have fresh: "md_id md \<notin> fst ` set (ls_members st)" by blast
    have 1: "set (remove1 md ms) \<subseteq> set ms0"
      using sub set_remove1_subset [of md ms] by blast
    have 2: "distinct (map md_id (remove1 md ms))"
      using d by (rule distinct_map_remove1)
    have 3: "fst ` set (ls_members ?st) \<inter> md_id ` set (remove1 md ms) = {}"
    proof -
      have "md_id md \<notin> md_id ` set (remove1 md ms)" using d md by (rule removed_id_notin)
      moreover have "md_id ` set (remove1 md ms) \<subseteq> md_id ` set ms"
        using set_remove1_subset [of md ms] by blast
      ultimately show ?thesis using disj unfolding keys_instantiate_member by blast
    qed
    have "grouped_kind (md_config md) \<Longrightarrow> Q (md_id md)"
      unfolding Q_def using md sub by blast
    then have 4: "\<forall>i \<in> set_option (last_member_id ?st) \<union> set (current_box_member_ids ?st) \<union>
                 \<Union>(set ` set (ls_boxes ?st)). Q i"
      using ko by (rule kinds_step)
    have 5: "last_ok ?st" using fresh lo by (rule last_ok_step)
    have 6: "successively (\<lambda>p q. close_by p q \<longrightarrow>
         same_box (current_box_member_ids ?st # ls_boxes ?st) p q) (grouped_members ?st)"
      using fresh lo so by (rule succ_ok_step)
    from 1 2 3 4 5 6 show ?thesis unfolding I_def by simp
  qed
  have "I [] st'"
    using run init by (rule loop_invariant) (rule step)
  then show ?thesis unfolding I_def Q_def by simp
qed

subsection \<open>After the loop\<close>

lemma grouped_members_flush: "grouped_members (flush_box st) = grouped_members st"
  by (simp add: grouped_members_def members_flush_box)

lemma flush_box_boxes:
  "b \<in> set (current_box_member_ids st # ls_boxes st) \<Longrightarrow> b \<noteq> [] \<Longrightarrow>
     b \<in> set (ls_boxes (flush_box st))"
  by (auto simp: flush_box_def)

lemma boxes_flush_box:
  "set (ls_boxes (flush_box st)) \<subseteq> set (current_box_member_ids st # ls_boxes st)"
  by (auto simp: flush_box_def)

lemma validate_boxes_subset:
  "validate_boxes d ms bs = Inr bs' \<Longrightarrow> set bs' \<subseteq> set bs"
  by (cases "del_boxes d ms bs") (auto simp: validate_boxes_def dest: set_fold_remove_box [THEN subsetD])

section \<open>The member dict that the loop builds\<close>








section \<open>Concurrency groups\<close>

text \<open>
  Claim C7, as the code has it. The grouping block of \<^verbatim>\<open>load_members\<close> runs for the members
  of kind workflow, agent and block only. When the member ids are distinct and the
  instantiation loop returns, every id in every box is the id of a configured member of one of
  these three kinds (never a user, never a node); any two of these members that are
  instantiated one directly after the other (members of the other kinds in between are passed
  over) and whose first ordinates differ by less than ten have their ids in one box of the box
  list that the loop leaves; and the validation that follows the loop only removes boxes from
  that list.
\<close>

theorem grouping_adjacent_members:
  assumes inst: "instantiate_members construct c = Some (Inr st)"
    and ms: "config_members c = Inr ms"
    and dist: "distinct (map md_id ms)"
  shows "(\<forall>box \<in> set (ls_boxes st). \<forall>i \<in> set box.
            \<exists>md \<in> set ms. md_id md = i \<and> grouped_kind (md_config md)) \<and>
         successively (\<lambda>p q. close_by p q \<longrightarrow> same_box (ls_boxes st) p q) (grouped_members st) \<and>
         (\<forall>depth bs. validate_boxes depth (ls_members st) (ls_boxes st) = Inr bs \<longrightarrow>
            set bs \<subseteq> set (ls_boxes st))"
proof -
  let ?ms = "sort_key md_loc_x ms"
  from inst ms obtain st0 where
    run: "load_members_loop construct (config_inputs c) 0 ?ms init_load_state = Some (Inr st0)"
    and st: "st = flush_box st0"
    by (auto simp: instantiate_members_def split: option.splits sum.splits)
  have d: "distinct (map md_id ?ms)" using dist by (simp add: distinct_map_sort_key)
  from loop_grouping [OF run d]
  have k: "\<forall>i \<in> set (current_box_member_ids st0) \<union> \<Union>(set ` set (ls_boxes st0)).
            \<exists>md \<in> set ?ms. md_id md = i \<and> grouped_kind (md_config md)"
    and s: "successively (\<lambda>p q. close_by p q \<longrightarrow>
             same_box (current_box_member_ids st0 # ls_boxes st0) p q) (grouped_members st0)"
    by simp_all
  have 1: "\<forall>box \<in> set (ls_boxes st). \<forall>i \<in> set box.
            \<exists>md \<in> set ms. md_id md = i \<and> grouped_kind (md_config md)"
  proof (intro ballI)
    fix box i assume "box \<in> set (ls_boxes st)" "i \<in> set box"
    with boxes_flush_box [of st0] st
    have "i \<in> set (current_box_member_ids st0) \<union> \<Union>(set ` set (ls_boxes st0))" by auto
    with k show "\<exists>md \<in> set ms. md_id md = i \<and> grouped_kind (md_config md)" by simp
  qed
  have 2: "successively (\<lambda>p q. close_by p q \<longrightarrow> same_box (ls_boxes st) p q) (grouped_members st)"
    unfolding st grouped_members_flush
  proof (rule successively_mono [OF s])
    fix p q assume "close_by p q \<longrightarrow> same_box (current_box_member_ids st0 # ls_boxes st0) p q"
    then show "close_by p q \<longrightarrow> same_box (ls_boxes (flush_box st0)) p q"
      using same_box_mono [of "current_box_member_ids st0 # ls_boxes st0" p q "ls_boxes (flush_box st0)"]
        flush_box_boxes [of _ st0] by blast
  qed
  have 3: "\<forall>depth bs. validate_boxes depth (ls_members st) (ls_boxes st) = Inr bs \<longrightarrow>
            set bs \<subseteq> set (ls_boxes st)"
    using validate_boxes_subset by blast
  from 1 2 3 show ?thesis by (intro conjI)
qed

lemma diamond_groups:
  "map_option (map_sum id ls_boxes) (instantiate_members always diamond_doc) =
     Some (Inr [[''B'', ''A'']])"
  "map_option (map_sum id (\<lambda>st. map member_id (grouped_members st)))
     (instantiate_members always diamond_doc) = Some (Inr [''A'', ''B'', ''C''])"
  by code_simp+

theorem grouping_adjacent_members_witness:
  "\<exists>st. instantiate_members always diamond_doc = Some (Inr st) \<and>
        ls_boxes st = [[''B'', ''A'']] \<and>
        map member_id (grouped_members st) = [''A'', ''B'', ''C''] \<and>
        successively (\<lambda>p q. close_by p q \<longrightarrow> same_box [[''B'', ''A'']] p q) (grouped_members st)"
proof -
  obtain r where r: "instantiate_members always diamond_doc = Some r"
    using diamond_groups(1) by (cases "instantiate_members always diamond_doc") simp_all
  obtain st where st: "r = Inr st"
    using diamond_groups(1) unfolding r by (cases r) simp_all
  have b: "ls_boxes st = [[''B'', ''A'']]"
    using diamond_groups(1) unfolding r st by simp
  have g: "map member_id (grouped_members st) = [''A'', ''B'', ''C'']"
    using diamond_groups(2) unfolding r st by simp
  have i: "instantiate_members always diamond_doc = Some (Inr st)"
    unfolding r st ..
  have d: "distinct (map md_id [MemberDict ''C'' None 200 0 agent_cfg,
      MemberDict ''A'' None 100 0 agent_cfg, MemberDict ''U'' None 0 0 user_cfg,
      MemberDict ''B'' None 100 0 agent_cfg])" by simp
  have "successively (\<lambda>p q. close_by p q \<longrightarrow> same_box (ls_boxes st) p q) (grouped_members st)"
    using grouping_adjacent_members [OF i diamond_members d] by (rule conjunct1 [OF conjunct2])
  then have s: "successively (\<lambda>p q. close_by p q \<longrightarrow> same_box [[''B'', ''A'']] p q)
      (grouped_members st)"
    unfolding b .
  from i b g s show ?thesis by (intro exI conjI)
qed

text \<open>
  The claim as worded counts the human participants among the kinds that are grouped, and
  takes the participants that are adjacent by position. A user at 100 and an agent at 105
  are adjacent and five apart, and no box is made. Of three agents at 100, 105 and 300, the
  first of which depends on the third, the first two are adjacent and five apart; the first
  is instantiated last, after the one at 300, and no box is made either.
\<close>

theorem near_members_not_grouped:
  "config_members near_user_doc =
     Inr [MemberDict ''U'' None 100 0 user_cfg, MemberDict ''A'' None 105 0 agent_cfg] \<and>
   abs (105 - 100 :: int) < 10 \<and>
   map_option (map_sum id ls_boxes) (instantiate_members always near_user_doc) = Some (Inr []) \<and>
   config_members deferred_doc =
     Inr [MemberDict ''A'' None 100 0 agent_cfg, MemberDict ''B'' None 105 0 agent_cfg,
          MemberDict ''C'' None 300 0 agent_cfg] \<and>
   map_option (map_sum id (\<lambda>st. (map fst (ls_members st), ls_boxes st)))
     (instantiate_members always deferred_doc) = Some (Inr ([''B'', ''C'', ''A''], []))"
  by code_simp

section \<open>What a turn yields\<close>

lemma find_filter_single:
  "List.find P xs = Some m \<Longrightarrow> length (filter P xs) = 1 \<Longrightarrow> filter P xs = [m]"
proof (induction xs)
  case Nil
  then show ?case by simp
next
  case (Cons a xs)
  show ?case
  proof (cases "P a")
    case True
    with Cons.prems show ?thesis by simp
  next
    case False
    with Cons show ?thesis by simp
  qed
qed

lemma filter_single_find: "filter P xs = [m] \<Longrightarrow> List.find P xs = Some m"
proof (induction xs)
  case Nil
  then show ?case by simp
next
  case (Cons a xs)
  then show ?case by (cases "P a") simp_all
qed

lemma gen_members_set_turn_output [simp]:
  "gen_members (set_turn_output mid v w) = gen_members w"
  by (simp add: set_turn_output_def)

lemma frame_gen_members [simp]: "frame (w\<lparr>gen_members := g\<rparr>) = frame w"
  by (simp add: frame_def)

lemma frame_set_turn_output [simp]: "frame (set_turn_output mid v w) = frame w"
  by (simp add: frame_def set_turn_output_def case_prod_beta)

lemma frame_filter_role: "frame st = frame w \<Longrightarrow> filter_role st = filter_role w"
  by (simp add: frame_def filter_role_def)

lemma frame_group:
  "frame st = frame w \<Longrightarrow> get_member_async_group st mid = get_member_async_group w mid"
  by (simp add: frame_def get_member_async_group_def)

lemma frame_length: "frame st = frame w \<Longrightarrow> length (members st) = length (members w)"
  unfolding frame_def by (auto dest: map_eq_imp_length_eq)

lemma frame_member_id:
  assumes "frame st = frame w" "i < length (members w)"
  shows "member_id (snd (members st ! i)) = member_id (snd (members w ! i))"
    and "config (snd (members st ! i)) = config (snd (members w ! i))"
proof -
  let ?f = "\<lambda>p. (member_id (snd p), config (snd p))"
  from assms(1) have m: "map ?f (members st) = map ?f (members w)" by (simp add: frame_def)
  then have l: "length (members st) = length (members w)" by (rule map_eq_imp_length_eq)
  have "?f (members st ! i) = map ?f (members st) ! i" using assms(2) l by simp
  also have "\<dots> = map ?f (members w) ! i" by (simp only: m)
  also have "\<dots> = ?f (members w ! i)" using assms(2) by simp
  finally show "member_id (snd (members st ! i)) = member_id (snd (members w ! i))"
    and "config (snd (members st ! i)) = config (snd (members w ! i))" by simp_all
qed

lemma drive_frame: "frame (fst (snd (drive i fr es w))) = frame w"
proof (induction i fr es w rule: drive.induct)
  case (1 i fr w)
  show ?case by simp
next
  case (2 i fr mid v es w)
  then show ?case by simp
next
  case (3 i fr key chunk es w)
  show ?case
  proof (cases "key = ''SYS'' \<and> chunk = ''SKIP''")
    case True
    then show ?thesis by simp
  next
    case False
    from "3.IH" [OF False refl refl refl]
    have "frame (fst (snd (drive i fr es w))) = frame w" .
    with False show ?thesis by (simp add: Let_def case_prod_beta)
  qed
qed

lemma drive_yields:
  assumes "y \<in> set (fst (drive i fr es w))"
  shows "filter (\<lambda>m. turn_output m = None) (get_members (y_state y) None None) = [y_member y] \<and>
         (y_key y = fr \<or> fr = ''all'') \<and>
         y_member y = snd (members (y_state y) ! i) \<and>
         frame (y_state y) = frame w \<and>
         gen_members (y_state y) = gen_members w"
  using assms
proof (induction i fr es w rule: drive.induct)
  case (1 i fr w)
  then show ?case by simp
next
  case (2 i fr mid v es w)
  then show ?case by simp
next
  case (3 i fr key chunk es w)
  show ?case
  proof (cases "key = ''SYS'' \<and> chunk = ''SKIP''")
    case True
    with "3.prems" show ?thesis by simp
  next
    case False
    let ?member = "snd (members w ! i)"
    let ?head = "next_expected_is_last_member w \<and> Some ?member = next_expected_member w \<and>
                 (key = fr \<or> fr = ''all'')"
    from "3.prems" False consider
      (head) "?head" "y = \<lparr>y_key = key, y_chunk = chunk, y_member = ?member, y_state = w\<rparr>"
      | (tail) "y \<in> set (fst (drive i fr es w))"
      by (auto simp: Let_def case_prod_beta split: if_splits)
    then show ?thesis
    proof cases
      case head
      from head(1) have "filter (\<lambda>m. turn_output m = None) (get_members w None None) = [?member]"
        by (intro find_filter_single)
          (simp_all add: next_expected_member_def next_expected_is_last_member_def)
      with head show ?thesis by simp
    next
      case tail
      from "3.IH" [OF False refl refl refl tail] show ?thesis .
    qed
  qed
qed


lemma run_member_task_frame: "frame (run_member_task es w) = frame w"
  by (induction es w rule: run_member_task.induct) simp_all

lemma gather_frame: "frame (fst (gather run tasks w)) = frame w"
proof (induction tasks arbitrary: w)
  case Nil
  show ?case by simp
next
  case (Cons m tasks)
  obtain es ending where r: "run w m = (es, ending)" by (cases "run w m")
  show ?case
  proof (cases ending)
    case None
    with r Cons [of "run_member_task es w"] show ?thesis by (simp add: run_member_task_frame)
  next
    case (Some e)
    with r show ?thesis by (simp add: run_member_task_frame)
  qed
qed

lemma run_group_frame: "frame (fst (run_group run ids processed w)) = frame w"
proof (cases "group_tasks w ids processed")
  case (Inl e)
  then show ?thesis by (simp add: run_group_def)
next
  case (Inr tp)
  obtain tasks processed' where tp: "tp = (tasks, processed')" by (cases tp)
  obtain w' r where g: "gather run tasks w = (w', r)" by (cases "gather run tasks w")
  from gather_frame [of run tasks w] g have f: "frame w' = frame w" by simp
  have "fst (run_group run ids processed w) = w'"
    using Inr tp g
    by (simp add: run_group_def split: option.splits raised.splits py_error.splits)
  with f show ?thesis by simp
qed

lemma find_box_nonempty: "List.find (\<lambda>box. mid \<in> set box) bs \<noteq> Some []"
  by (auto simp: find_Some_iff)

lemma run_step_frame: "frame (fst (snd (run_step run i processed w))) = frame w"
proof (cases "get_member_async_group w (member_id (snd (members w ! i))) = None")
  case True
  then show ?thesis
    using drive_frame [of i "filter_role w"
        "fst (run (w\<lparr>gen_members := [member_id (snd (members w ! i))]\<rparr>) (snd (members w ! i)))"
        "w\<lparr>gen_members := [member_id (snd (members w ! i))]\<rparr>"]
    by (simp add: run_step_def Let_def case_prod_beta)
next
  case False
  then obtain box where b: "get_member_async_group w (member_id (snd (members w ! i))) = Some box"
    by auto
  then have ne: "box \<noteq> []"
    using find_box_nonempty [of "member_id (snd (members w ! i))" "boxes w"]
    by (auto simp: get_member_async_group_def)
  obtain w' p' r where g: "run_group run box processed (w\<lparr>gen_members := box\<rparr>) = (w', p', r)"
    by (cases "run_group run box processed (w\<lparr>gen_members := box\<rparr>)")
  from run_group_frame [of run box processed "w\<lparr>gen_members := box\<rparr>"] g
  have "frame w' = frame w" by simp
  then show ?thesis using b ne g
    by (simp add: run_step_def Let_def split: option.splits)
qed

lemma run_step_yields:
  assumes i: "i < length (members w)"
    and y: "y \<in> set (fst (run_step run i processed w))"
  shows "filter (\<lambda>m. turn_output m = None) (get_members (y_state y) None None) = [y_member y] \<and>
         (y_key y = filter_role (y_state y) \<or> filter_role (y_state y) = ''all'') \<and>
         get_member_async_group (y_state y) (member_id (y_member y)) = None \<and>
         gen_members (y_state y) = [member_id (y_member y)] \<and>
         frame (y_state y) = frame w"
proof (cases "get_member_async_group w (member_id (snd (members w ! i))) = None")
  case True
  let ?w1 = "w\<lparr>gen_members := [member_id (snd (members w ! i))]\<rparr>"
  let ?es = "fst (run ?w1 (snd (members w ! i)))"
  from y True have "y \<in> set (fst (drive i (filter_role w) ?es ?w1))"
    by (simp add: run_step_def Let_def case_prod_beta)
  from drive_yields [OF this]
  have a: "filter (\<lambda>m. turn_output m = None) (get_members (y_state y) None None) = [y_member y]"
    and b: "y_key y = filter_role w \<or> filter_role w = ''all''"
    and c: "y_member y = snd (members (y_state y) ! i)"
    and f: "frame (y_state y) = frame w"
    and g: "gen_members (y_state y) = [member_id (snd (members w ! i))]"
    by simp_all
  have m: "member_id (y_member y) = member_id (snd (members w ! i))"
    unfolding c using f i by (rule frame_member_id)
  with True have "get_member_async_group (y_state y) (member_id (y_member y)) = None"
    by (simp add: frame_group [OF f])
  with a b f g m show ?thesis by (simp add: frame_filter_role [OF f])
next
  case False
  then obtain box where b: "get_member_async_group w (member_id (snd (members w ! i))) = Some box"
    by auto
  then have ne: "box \<noteq> []"
    using find_box_nonempty [of "member_id (snd (members w ! i))" "boxes w"]
    by (auto simp: get_member_async_group_def)
  from y b ne have False
    by (simp add: run_step_def Let_def split: prod.splits option.splits)
  then show ?thesis ..
qed

lemma receive_loop_Cons:
  assumes member_def: "member = snd (members w ! i)"
    and fs_def: "fs \<longleftrightarrow> found_source \<or> Some (member_id (snd (members w ! i))) = from_member_id \<or>
                  from_member_id = None"
  shows "receive_loop run from_member_id (i # is) found_source processed w =
     (if \<not> fs \<or> member_id member \<in> set processed
      then receive_loop run from_member_id is fs processed w
      else
        (case run_step run i processed w of
           (ys, w', processed', Some x) \<Rightarrow> (ys, w', x)
         | (ys, w', processed', None) \<Rightarrow>
             if \<not> autorun w' \<or>
                (config_type (config member) \<in> {''user'', ''contact''} \<and>
                 Some (member_id member) \<noteq> from_member_id)
             then (ys, w', Return)
             else
               (case receive_loop run from_member_id is fs processed' w' of
                  (ys', w'', x) \<Rightarrow> (ys @ ys', w'', x))))"
proof -
  have "receive_loop run from_member_id (i # is) found_source processed w =
     (if \<not> fs then receive_loop run from_member_id is fs processed w
      else if member_id member \<in> set processed
      then receive_loop run from_member_id is fs processed w
      else
        (case run_step run i processed w of
           (ys, w', processed', Some x) \<Rightarrow> (ys, w', x)
         | (ys, w', processed', None) \<Rightarrow>
             if \<not> autorun w' then (ys, w', Return)
             else if config_type (config member) \<in> {''user'', ''contact''} \<and>
                     Some (member_id member) \<noteq> from_member_id
             then (ys, w', Return)
             else
               (case receive_loop run from_member_id is fs processed' w' of
                  (ys', w'', x) \<Rightarrow> (ys @ ys', w'', x))))"
    unfolding fs_def member_def by (simp only: receive_loop.simps Let_def)
  also have "\<dots> = (if \<not> fs \<or> member_id member \<in> set processed
      then receive_loop run from_member_id is fs processed w
      else
        (case run_step run i processed w of
           (ys, w', processed', Some x) \<Rightarrow> (ys, w', x)
         | (ys, w', processed', None) \<Rightarrow>
             if \<not> autorun w' \<or>
                (config_type (config member) \<in> {''user'', ''contact''} \<and>
                 Some (member_id member) \<noteq> from_member_id)
             then (ys, w', Return)
             else
               (case receive_loop run from_member_id is fs processed' w' of
                  (ys', w'', x) \<Rightarrow> (ys @ ys', w'', x))))"
    by (cases "run_step run i processed w") (auto split: option.splits)
  finally show ?thesis .
qed

lemma receive_loop_yields:
  assumes "\<forall>i \<in> set is. i < length (members w)"
    and "y \<in> set (fst (receive_loop run from_member_id is found_source processed w))"
  shows "filter (\<lambda>m. turn_output m = None) (get_members (y_state y) None None) = [y_member y] \<and>
         (y_key y = filter_role (y_state y) \<or> filter_role (y_state y) = ''all'') \<and>
         get_member_async_group (y_state y) (member_id (y_member y)) = None \<and>
         gen_members (y_state y) = [member_id (y_member y)]"
  using assms
proof (induction "is" arbitrary: found_source processed w)
  case Nil
  then show ?case by simp
next
  case (Cons i "is")
  define member where "member = snd (members w ! i)"
  define fs where "fs \<longleftrightarrow> found_source \<or> Some (member_id (snd (members w ! i))) = from_member_id \<or>
                  from_member_id = None"
  note unfold = receive_loop_Cons [OF member_def fs_def, of run "is" processed]
  from Cons.prems(1) have i: "i < length (members w)"
    and rest: "\<forall>j \<in> set is. j < length (members w)" by simp_all
  show ?case
  proof (cases "\<not> fs \<or> member_id member \<in> set processed")
    case True
    with Cons.prems(2)
    have "y \<in> set (fst (receive_loop run from_member_id is fs processed w))"
      by (simp only: unfold if_True)
    with rest show ?thesis by (rule Cons.IH)
  next
    case False
    obtain ys w' processed' x where s: "run_step run i processed w = (ys, w', processed', x)"
      by (cases "run_step run i processed w")
    from run_step_frame [of run i processed w] s have f: "frame w' = frame w" by simp
    from rest have rest': "\<forall>j \<in> set is. j < length (members w')"
      by (simp add: frame_length [OF f])
    obtain ys' w'' x' where l: "receive_loop run from_member_id is fs processed' w' = (ys', w'', x')"
      by (cases "receive_loop run from_member_id is fs processed' w'")
    from Cons.prems(2) have "y \<in> set ys \<or> y \<in> set ys'"
      unfolding unfold using False s l by (auto split: option.splits if_splits)
    then consider (step) "y \<in> set ys"
      | (loop) "y \<in> set (fst (receive_loop run from_member_id is fs processed' w'))"
      using l by auto
    then show ?thesis
    proof cases
      case step
      with s have "y \<in> set (fst (run_step run i processed w))" by simp
      from run_step_yields [OF i this] show ?thesis by simp
    next
      case loop
      with rest' show ?thesis by (rule Cons.IH)
    qed
  qed
qed

text \<open>
  Claim C4, as the code has it. Every pair that \<^verbatim>\<open>receive\<close> yields comes out of the inner
  loop over the producer of a member that is in no box, while \<^verbatim>\<open>gen_members\<close> holds the id
  of that member alone. At the \<^verbatim>\<open>yield\<close> this member is what \<^verbatim>\<open>next_expected_member()\<close>
  returns and \<^verbatim>\<open>next_expected_is_last_member()\<close> holds: of the members that
  \<^verbatim>\<open>get_members()\<close> returns, which leaves the structural nodes out, it is the only one
  whose \<^verbatim>\<open>turn_output\<close> is unset. The role filter of the configuration, in lower case,
  is \<^verbatim>\<open>all\<close> or is the key of the pair.
\<close>

theorem receive_yields_only_last_pending:
  assumes "y \<in> set (t_yielded (receive run get_final_message full_member_id w from_member_id))"
  shows "next_expected_member (y_state y) = Some (y_member y) \<and>
         next_expected_is_last_member (y_state y) \<and>
         filter (\<lambda>m. turn_output m = None) (get_members (y_state y) None None) = [y_member y] \<and>
         (y_key y = filter_role (y_state y) \<or> filter_role (y_state y) = ''all'') \<and>
         get_member_async_group (y_state y) (member_id (y_member y)) = None \<and>
         gen_members (y_state y) = [member_id (y_member y)]"
proof -
  let ?w1 = "w\<lparr>gen_members := [], responding := True\<rparr>"
  from assms have ne: "members w \<noteq> []"
    by (auto simp: receive_def Let_def)
  with assms
  have "y \<in> set (fst (receive_loop run from_member_id [0..<length (members ?w1)] False [] ?w1))"
    by (simp add: receive_def Let_def case_prod_beta)
  moreover have "\<forall>i \<in> set [0..<length (members ?w1)]. i < length (members ?w1)" by simp
  ultimately
  have l: "filter (\<lambda>m. turn_output m = None) (get_members (y_state y) None None) = [y_member y] \<and>
         (y_key y = filter_role (y_state y) \<or> filter_role (y_state y) = ''all'') \<and>
         get_member_async_group (y_state y) (member_id (y_member y)) = None \<and>
         gen_members (y_state y) = [member_id (y_member y)]"
    by (rule receive_loop_yields [rotated])
  then have f: "filter (\<lambda>m. turn_output m = None) (get_members (y_state y) None None) =
      [y_member y]" ..
  then have "next_expected_member (y_state y) = Some (y_member y)"
    unfolding next_expected_member_def by (rule filter_single_find)
  moreover from f have "next_expected_is_last_member (y_state y)"
    by (simp add: next_expected_is_last_member_def)
  ultimately show ?thesis using l by (intro conjI) simp_all
qed

lemma fresh_turn:
  "t_yielded (receive hi_run no_final_message ''0'' wf_fresh None) =
     [\<lparr>y_key = ''assistant'', y_chunk = ''hi'', y_member = mk_member ''1'' agent_cfg None,
       y_state = wf_fresh\<lparr>gen_members := [''1''], responding := True\<rparr>\<rparr>]"
  by code_simp

theorem receive_yields_only_last_pending_witness:
  "next_expected_member (wf_fresh\<lparr>gen_members := [''1''], responding := True\<rparr>) =
     Some (mk_member ''1'' agent_cfg None) \<and>
   next_expected_is_last_member (wf_fresh\<lparr>gen_members := [''1''], responding := True\<rparr>) \<and>
   filter (\<lambda>m. turn_output m = None)
     (get_members (wf_fresh\<lparr>gen_members := [''1''], responding := True\<rparr>) None None) =
     [mk_member ''1'' agent_cfg None] \<and>
   (''assistant'' = filter_role (wf_fresh\<lparr>gen_members := [''1''], responding := True\<rparr>) \<or>
    filter_role (wf_fresh\<lparr>gen_members := [''1''], responding := True\<rparr>) = ''all'') \<and>
   get_member_async_group (wf_fresh\<lparr>gen_members := [''1''], responding := True\<rparr>)
     (member_id (mk_member ''1'' agent_cfg None)) = None \<and>
   gen_members (wf_fresh\<lparr>gen_members := [''1''], responding := True\<rparr>) =
     [member_id (mk_member ''1'' agent_cfg None)]"
proof -
  let ?y = "\<lparr>y_key = ''assistant'', y_chunk = ''hi'', y_member = mk_member ''1'' agent_cfg None,
       y_state = wf_fresh\<lparr>gen_members := [''1''], responding := True\<rparr>\<rparr>"
  have "?y \<in> set (t_yielded (receive hi_run no_final_message ''0'' wf_fresh None))"
    by (simp only: fresh_turn list.set insertI1)
  from receive_yields_only_last_pending [OF this] show ?thesis
    by (simp only: yielded.select_convs)
qed

text \<open>
  The claim as worded has the member be the only participant that is still pending, and the
  key match the configured filter exactly. With an agent followed by a structural node,
  neither of which has an output, the pair of the agent is yielded while the node is pending
  as well. With the filter \<^verbatim>\<open>Assistant\<close>, the pair with the key \<^verbatim>\<open>assistant\<close> is yielded.
\<close>

theorem receive_yields_before_node:
  "map (\<lambda>y. (y_key y, y_chunk y, member_id (y_member y),
             map (\<lambda>p. (fst p, config_type (config (snd p)), turn_output (snd p)))
               (members (y_state y))))
     (t_yielded (receive hi_run no_final_message ''0'' wf_agent_node None)) =
     [(''assistant'', ''hi'', ''1'', [(''1'', ''agent'', None), (''2'', ''node'', None)])] \<and>
   c_filter_role (wconfig wf_filter_assistant) = Some ''Assistant'' \<and>
   map (\<lambda>y. (y_key y, y_chunk y))
     (t_yielded (receive hi_run no_final_message ''0'' wf_filter_assistant None)) =
     [(''assistant'', ''hi'')]"
  by code_simp

section \<open>How a turn ends\<close>




end
